theory Spec2Isabelle
  imports Main "HOL-Library.Multiset"
begin

section \<open>Python strings\<close>

text \<open>
  A Python \<open>str\<close> is modelled as a \<open>string\<close>: a list of characters, each character
  standing for the code point with the same number (0 to 255). Lengths count characters,
  as \<open>len\<close> does. Integers are Python's unbounded \<open>int\<close>.
\<close>

datatype error = ValueError | AttributeError | TypeError | EOFError

text \<open>\<open>str.isspace\<close> on one character: the characters \<open>str.split()\<close> and
  \<open>str.strip()\<close> treat as whitespace.\<close>

definition py_isspace :: "char \<Rightarrow> bool" where
  "py_isspace c = (of_char c \<in> set [9, 10, 11, 12, 13, 28, 29, 30, 31, 32, 133, 160 :: nat])"

text \<open>\<open>str.split()\<close> with no argument: the maximal runs of non-whitespace characters.
  \<open>cur\<close> is the word being read.\<close>

fun split_from :: "string \<Rightarrow> string \<Rightarrow> string list" where
  "split_from cur [] = (if cur = [] then [] else [cur])"
| "split_from cur (c # cs) =
     (if py_isspace c then (if cur = [] then split_from [] cs else cur # split_from [] cs)
      else split_from (cur @ [c]) cs)"

definition py_split :: "string \<Rightarrow> string list" where
  "py_split s = split_from [] s"

text \<open>\<open>sep.join(xs)\<close>.\<close>

fun py_join :: "string \<Rightarrow> string list \<Rightarrow> string" where
  "py_join sep [] = []"
| "py_join sep [x] = x"
| "py_join sep (x # y # ys) = x @ sep @ py_join sep (y # ys)"

text \<open>\<open>s.replace(old, new)\<close> for one-character \<open>old\<close> and \<open>new\<close>.\<close>

definition replace_char :: "char \<Rightarrow> char \<Rightarrow> string \<Rightarrow> string" where
  "replace_char old new s = map (\<lambda>c. if c = old then new else c) s"

text \<open>\<open>s.center(width, fillchar)\<close>: a string at least \<open>width\<close> long is returned
  unchanged; otherwise \<open>marg = width - len(s)\<close> fill characters are added,
  \<open>marg / 2 + (marg & width & 1)\<close> of them on the left.\<close>

definition center :: "string \<Rightarrow> int \<Rightarrow> char \<Rightarrow> string" where
  "center s width fillchar =
     (if width \<le> int (length s) then s
      else let marg = nat (width - int (length s));
               left = marg div 2 + (if odd marg \<and> odd width then 1 else 0)
           in replicate left fillchar @ s @ replicate (marg - left) fillchar)"

text \<open>Python slicing: the position that \<open>s[:e]\<close> and \<open>s[e:]\<close> cut at in a string
  of length \<open>n\<close>; a negative \<open>e\<close> counts from the end.\<close>

definition slice_pos :: "int \<Rightarrow> nat \<Rightarrow> nat" where
  "slice_pos e n = (if e < 0 then nat (max 0 (int n + e)) else min (nat e) n)"

definition slice_to :: "string \<Rightarrow> int \<Rightarrow> string" where
  "slice_to s e = take (slice_pos e (length s)) s"

definition slice_from :: "string \<Rightarrow> int \<Rightarrow> string" where
  "slice_from s e = drop (slice_pos e (length s)) s"

text \<open>\<open>s.rfind(ch, 0, e)\<close> for a one-character \<open>ch\<close>: the highest index below the
  cut position holding \<open>ch\<close>, or \<open>-1\<close>. \<open>last_index ch s i\<close> scans \<open>s\<close> from index
  \<open>i\<close>.\<close>

fun last_index :: "char \<Rightarrow> string \<Rightarrow> int \<Rightarrow> int" where
  "last_index ch [] i = -1"
| "last_index ch (c # cs) i =
     (let r = last_index ch cs (i + 1) in if r \<noteq> -1 then r else if c = ch then i else -1)"

definition rfind :: "string \<Rightarrow> char \<Rightarrow> int \<Rightarrow> int" where
  "rfind s ch e = last_index ch (slice_to s e) 0"

text \<open>\<open>s.expandtabs(tabsize)\<close>; \<open>line_pos\<close> is the column reached.\<close>

fun expandtabs_from :: "nat \<Rightarrow> nat \<Rightarrow> string \<Rightarrow> string" where
  "expandtabs_from tabsize line_pos [] = []"
| "expandtabs_from tabsize line_pos (c # cs) =
     (if c = CHR 0x09 then
        (if 0 < tabsize then
           (let incr = tabsize - line_pos mod tabsize
            in replicate incr CHR '' '' @ expandtabs_from tabsize (line_pos + incr) cs)
         else expandtabs_from tabsize line_pos cs)
      else c # expandtabs_from tabsize (if c = CHR 0x0A \<or> c = CHR 0x0D then 0 else line_pos + 1) cs)"

definition expandtabs :: "string \<Rightarrow> nat \<Rightarrow> string" where
  "expandtabs s tabsize = expandtabs_from tabsize 0 s"

section \<open>The standard library's textwrap.wrap\<close>

text \<open>
  \<open>textwrap.wrap(text, width)\<close> is \<open>TextWrapper(width=width).wrap(text)\<close> with the
  defaults: no indents, \<open>expand_tabs\<close>, \<open>replace_whitespace\<close>, \<open>break_long_words\<close>,
  \<open>drop_whitespace\<close> and \<open>break_on_hyphens\<close> on, \<open>fix_sentence_endings\<close> off,
  \<open>tabsize = 8\<close>, \<open>max_lines = None\<close> (CPython 3.11).
\<close>

text \<open>\<open>_whitespace = '\t\n\x0b\x0c\r '\<close>.\<close>

definition tw_whitespace :: "char \<Rightarrow> bool" where
  "tw_whitespace c = (of_char c \<in> set [9, 10, 11, 12, 13, 32 :: nat])"

definition munge_whitespace :: "string \<Rightarrow> string" where
  "munge_whitespace text =
     map (\<lambda>c. if tw_whitespace c then CHR '' '' else c) (expandtabs text 8)"

text \<open>The character classes of \<open>wordsep_re\<close>: \<open>\w\<close> and \<open>\d\<close> of the regular
  expression engine, \<open>letter = [^\d\W]\<close> and \<open>word_punct = [\w!"'&.,?]\<close>.\<close>

definition re_word :: "char \<Rightarrow> bool" where
  "re_word c =
     (let n = of_char c :: nat
      in (48 \<le> n \<and> n \<le> 57) \<or> (65 \<le> n \<and> n \<le> 90) \<or> n = 95 \<or> (97 \<le> n \<and> n \<le> 122)
         \<or> n \<in> set [170, 178, 179, 181, 185, 186, 188, 189, 190]
         \<or> (192 \<le> n \<and> n \<le> 214) \<or> (216 \<le> n \<and> n \<le> 246) \<or> 248 \<le> n)"

definition re_digit :: "char \<Rightarrow> bool" where
  "re_digit c = (let n = of_char c :: nat in 48 \<le> n \<and> n \<le> 57)"

definition letter :: "char \<Rightarrow> bool" where
  "letter c = (re_word c \<and> \<not> re_digit c)"

definition word_punct :: "char \<Rightarrow> bool" where
  "word_punct c = (re_word c \<or> of_char c \<in> set [33, 34, 38, 39, 44, 46, 63 :: nat])"

text \<open>
  \<open>wordsep_re\<close> has three alternatives, tried in this order where a chunk starts:
  a run of whitespace; an em-dash \<open>(?<=wp) -{2,} (?=\w)\<close>; a word
  \<open>nws+? (?: -(?: (?<=lt{2}-) | (?<=lt-lt-)) (?= lt -? lt) | (?=ws|\Z) | (?<=wp) (?=-{2,}\w))\<close>.
  A whitespace character starts a match of the first and any other character a match of
  the third, so the matches tile the text and, the empty strings between them filtered
  out, are the chunks. \<open>prev\<close> is the text to the left of the current position,
  reversed, for the look-behinds.
\<close>

definition hyphen_run :: "string \<Rightarrow> nat" where
  "hyphen_run s = length (takeWhile (\<lambda>c. c = CHR ''-'') s)"

text \<open>\<open>(?=-{2,}\w)\<close>: the hyphens are matched greedily, and giving one back leaves a
  hyphen where \<open>\w\<close> is wanted, so the whole run counts.\<close>

definition emdash_ahead :: "string \<Rightarrow> bool" where
  "emdash_ahead s =
     (2 \<le> hyphen_run s \<and> (case drop (hyphen_run s) s of [] \<Rightarrow> False | c # _ \<Rightarrow> re_word c))"

text \<open>\<open>(?<=wp)\<close>.\<close>

definition punct_behind :: "string \<Rightarrow> bool" where
  "punct_behind prev = (case prev of [] \<Rightarrow> False | c # _ \<Rightarrow> word_punct c)"

text \<open>\<open>(?<=lt{2}-) | (?<=lt-lt-)\<close>, read just after a hyphen; \<open>prev\<close> ends left of
  that hyphen.\<close>

definition hyphen_behind :: "string \<Rightarrow> bool" where
  "hyphen_behind prev =
     (case prev of
        a # b # rest \<Rightarrow>
          letter a \<and> (letter b \<or> (b = CHR ''-'' \<and> (case rest of [] \<Rightarrow> False | c # _ \<Rightarrow> letter c)))
      | _ \<Rightarrow> False)"

text \<open>\<open>(?= lt -? lt)\<close>.\<close>

definition letters_ahead :: "string \<Rightarrow> bool" where
  "letters_ahead s =
     (case s of
        a # b # rest \<Rightarrow>
          letter a \<and> ((b = CHR ''-'' \<and> (case rest of [] \<Rightarrow> False | c # _ \<Rightarrow> letter c)) \<or> letter b)
      | _ \<Rightarrow> False)"

text \<open>The third alternative, after its first character: how many more characters the
  match takes. \<open>nws+?\<close> is lazy, so the shortest word that one of the three endings
  accepts is the match.\<close>

fun word_more :: "string \<Rightarrow> string \<Rightarrow> nat" where
  "word_more prev [] = 0"
| "word_more prev (c # cs) =
     (if c = CHR ''-'' \<and> hyphen_behind prev \<and> letters_ahead cs then 1
      else if tw_whitespace c then 0
      else if punct_behind prev \<and> emdash_ahead (c # cs) then 0
      else 1 + word_more (c # prev) cs)"

text \<open>The match that starts with the character \<open>c\<close>: how many characters of \<open>cs\<close> it
  takes after \<open>c\<close>.\<close>

definition match_more :: "string \<Rightarrow> char \<Rightarrow> string \<Rightarrow> nat" where
  "match_more prev c cs =
     (if tw_whitespace c then length (takeWhile tw_whitespace cs)
      else if punct_behind prev \<and> emdash_ahead (c # cs) then hyphen_run cs
      else word_more (c # prev) cs)"

fun wordsep_split :: "string \<Rightarrow> string \<Rightarrow> string list" where
  "wordsep_split prev [] = []"
| "wordsep_split prev (c # cs) =
     (let m = match_more prev c cs
      in (c # take m cs) # wordsep_split (rev (take m cs) @ c # prev) (drop m cs))"

text \<open>\<open>_split_chunks\<close>.\<close>

definition split_chunks :: "string \<Rightarrow> string list" where
  "split_chunks text = wordsep_split [] (munge_whitespace text)"

text \<open>\<open>chunk.strip() == ''\<close>.\<close>

definition is_blank :: "string \<Rightarrow> bool" where
  "is_blank chunk = list_all py_isspace chunk"

text \<open>The inner loop of \<open>_wrap_chunks\<close>: chunks move onto the current line while they
  fit. The chunks are kept in text order; the code pops them off a reversed list.\<close>

fun fill_line :: "nat \<Rightarrow> string list \<Rightarrow> nat \<Rightarrow> string list \<Rightarrow> string list \<times> nat \<times> string list" where
  "fill_line width cur_line cur_len [] = (cur_line, cur_len, [])"
| "fill_line width cur_line cur_len (c # chunks) =
     (if cur_len + length c \<le> width
      then fill_line width (cur_line @ [c]) (cur_len + length c) chunks
      else (cur_line, cur_len, c # chunks))"

text \<open>\<open>_handle_long_word\<close> with \<open>break_long_words\<close> and \<open>break_on_hyphens\<close>: the
  next chunk is cut at \<open>space_left\<close>, or after its last hyphen before that when
  something other than hyphens precedes it. Returns the current line and the chunks.\<close>

definition handle_long_word :: "string list \<Rightarrow> string list \<Rightarrow> nat \<Rightarrow> nat \<Rightarrow> string list \<times> string list" where
  "handle_long_word chunks cur_line cur_len width =
     (let space_left = (if width < 1 then 1 else int width - int cur_len);
          chunk = hd chunks;
          hyphen = rfind chunk CHR ''-'' space_left;
          end = (if space_left < int (length chunk) \<and> 0 < hyphen
                    \<and> list_ex (\<lambda>c. c \<noteq> CHR ''-'') (slice_to chunk hyphen)
                 then hyphen + 1 else space_left)
      in (cur_line @ [slice_to chunk end], slice_from chunk end # tl chunks))"

text \<open>One pass of the outer loop of \<open>_wrap_chunks\<close>, for a non-empty list of chunks:
  the chunks of the line it builds and the chunks left. \<open>have_lines\<close> says whether a
  line has been stored already.\<close>

definition wrap_line :: "nat \<Rightarrow> bool \<Rightarrow> string list \<Rightarrow> string list \<times> string list" where
  "wrap_line width have_lines chunks =
     (let chunks1 = (if is_blank (hd chunks) \<and> have_lines then tl chunks else chunks);
          (cur_line, cur_len, chunks2) = fill_line width [] 0 chunks1;
          (cur_line2, chunks3) =
            (if chunks2 \<noteq> [] \<and> width < length (hd chunks2)
             then handle_long_word chunks2 cur_line cur_len width
             else (cur_line, chunks2));
          cur_line3 = (if cur_line2 \<noteq> [] \<and> is_blank (last cur_line2)
                       then butlast cur_line2 else cur_line2)
      in (cur_line3, chunks3))"

text \<open>What is left to wrap: the characters and the chunks.\<close>

definition chunks_size :: "string list \<Rightarrow> nat" where
  "chunks_size chunks = length (concat chunks) + length chunks"

text \<open>Every pass of the outer loop leaves less to wrap: it stores a chunk on the line,
  drops one, or cuts at least one character off a chunk that fits on no line.\<close>

lemma slice_pos_le: "slice_pos e n \<le> n"
  by (auto simp: slice_pos_def)

lemma fill_line_taken:
  "fill_line w cl n chunks = (cl', n', chunks') \<Longrightarrow>
   \<exists>taken. chunks = taken @ chunks' \<and> cl' = cl @ taken \<and> n' = n + length (concat taken)"
proof (induction chunks arbitrary: cl n)
  case Nil
  then show ?case by simp
next
  case (Cons c chunks)
  show ?case
  proof (cases "n + length c \<le> w")
    case True
    with Cons.prems have "fill_line w (cl @ [c]) (n + length c) chunks = (cl', n', chunks')"
      by simp
    from Cons.IH [OF this] obtain taken where
      "chunks = taken @ chunks'" "cl' = (cl @ [c]) @ taken" "n' = n + length c + length (concat taken)"
      by blast
    then have "c # chunks = (c # taken) @ chunks' \<and> cl' = cl @ (c # taken) \<and> n' = n + length (concat (c # taken))"
      by simp
    then show ?thesis by blast
  next
    case False
    with Cons.prems have "c # chunks = [] @ chunks' \<and> cl' = cl @ [] \<and> n' = n + length (concat ([]::string list))"
      by simp
    then show ?thesis by blast
  qed
qed

lemma fill_line_blocked:
  "fill_line w cl n chunks = (cl', n', chunks') \<Longrightarrow> chunks' \<noteq> [] \<Longrightarrow> w < n' + length (hd chunks')"
  by (induction chunks arbitrary: cl n) (auto split: if_splits)

lemma fill_line_fits:
  "fill_line w cl n chunks = (cl', n', chunks') \<Longrightarrow> n \<le> w \<Longrightarrow> n' \<le> w"
  by (induction chunks arbitrary: cl n) (auto split: if_splits)

lemma chunks_size_append: "chunks_size (xs @ ys) = chunks_size xs + chunks_size ys"
  by (simp add: chunks_size_def)

lemma chunks_size_Cons: "chunks_size (x # xs) = Suc (length x + chunks_size xs)"
  by (simp add: chunks_size_def)

lemma chunks_size_tl: "chunks \<noteq> [] \<Longrightarrow> chunks_size (tl chunks) < chunks_size chunks"
  by (cases chunks) (simp_all add: chunks_size_Cons)

lemma handle_long_word_size:
  "chunks \<noteq> [] \<Longrightarrow> chunks_size (snd (handle_long_word chunks cl n w)) \<le> chunks_size chunks"
  by (cases chunks) (auto simp: handle_long_word_def Let_def chunks_size_Cons slice_from_def)


lemma handle_long_word_progress:
  assumes "handle_long_word (c # chunks) cl 0 w = (cl', chunks')" and "w < length c"
  shows "chunks_size chunks' < chunks_size (c # chunks)"
proof -
  define sl where "sl = (if w < 1 then 1 else int w - int (0::nat))"
  define hy where "hy = rfind c CHR ''-'' sl"
  define en where "en = (if sl < int (length c) \<and> 0 < hy \<and> list_ex (\<lambda>c. c \<noteq> CHR ''-'') (slice_to c hy) then hy + 1 else sl)"
  have "0 < sl" using assms(2) by (simp add: sl_def)
  then have "0 < en" by (simp add: en_def)
  have "c \<noteq> []" using assms(2) by auto
  with \<open>0 < en\<close> have "0 < slice_pos en (length c)"
    by (simp add: slice_pos_def)
  then have "length (slice_from c en) < length c"
    using \<open>c \<noteq> []\<close> by (simp add: slice_from_def)
  moreover have "handle_long_word (c # chunks) cl 0 w = (cl @ [slice_to c en], slice_from c en # chunks)"
    unfolding handle_long_word_def Let_def en_def hy_def sl_def list.sel by (rule refl)
  with assms(1) have "chunks' = slice_from c en # chunks" by simp
  ultimately show ?thesis by (simp add: chunks_size_Cons)
qed

lemma wrap_line_size:
  assumes "chunks \<noteq> []"
  shows "chunks_size (snd (wrap_line w b chunks)) < chunks_size chunks"
proof -
  define chunks1 where "chunks1 = (if is_blank (hd chunks) \<and> b then tl chunks else chunks)"
  obtain cl n chunks2 where fl: "fill_line w [] 0 chunks1 = (cl, n, chunks2)"
    by (metis prod_cases3)
  define r where "r = (if chunks2 \<noteq> [] \<and> w < length (hd chunks2)
             then handle_long_word chunks2 cl n w else (cl, chunks2))"
  have res: "snd (wrap_line w b chunks) = snd r"
    by (simp add: wrap_line_def Let_def chunks1_def [symmetric] fl r_def split: prod.splits)
  from fill_line_taken [OF fl] obtain taken where
    tk: "chunks1 = taken @ chunks2" "cl = taken" "n = length (concat taken)" by auto
  have le1: "chunks_size chunks1 \<le> chunks_size chunks"
    using chunks_size_tl [OF assms] by (simp add: chunks1_def)
  have le2: "chunks_size (snd r) \<le> chunks_size chunks2"
    using handle_long_word_size [of chunks2 cl n w] by (simp add: r_def)
  show ?thesis
  proof (cases "chunks1 = chunks \<and> taken = []")
    case True
    then have c2: "chunks2 = chunks" "n = 0" "cl = []" using tk by auto
    obtain c cs where cs: "chunks = c # cs" using assms by (cases chunks) auto
    from fill_line_blocked [OF fl] have "w < length c" using c2 cs by simp
    then have "r = handle_long_word (c # cs) [] 0 w" by (simp add: r_def c2 cs)
    with handle_long_word_progress [of c cs "[]" w "fst r" "snd r"] \<open>w < length c\<close>
    have "chunks_size (snd r) < chunks_size chunks" by (simp add: cs)
    then show ?thesis unfolding res .
  next
    case False
    then have "chunks_size chunks2 < chunks_size chunks"
    proof (cases "taken = []")
      case True
      with False have "chunks1 \<noteq> chunks" by simp
      then have "chunks1 = tl chunks" by (simp add: chunks1_def split: if_splits)
      with True tk chunks_size_tl [OF assms] show ?thesis by simp
    next
      case False
      then have "chunks_size chunks2 < chunks_size chunks1"
        by (cases taken) (simp_all add: tk(1) chunks_size_append chunks_size_Cons)
      with le1 show ?thesis by simp
    qed
    with le2 show ?thesis by (simp add: res)
  qed
qed

text \<open>The outer loop of \<open>_wrap_chunks\<close>: \<open>lines\<close> are the lines stored so far.\<close>

function wrap_chunks_loop :: "nat \<Rightarrow> string list \<Rightarrow> string list \<Rightarrow> string list" where
  "wrap_chunks_loop width lines chunks =
     (if chunks = [] then lines
      else let (cur_line, chunks') = wrap_line width (lines \<noteq> []) chunks
           in wrap_chunks_loop width
                (if cur_line \<noteq> [] then lines @ [concat cur_line] else lines) chunks')"
  by pat_completeness auto
termination
proof (relation "measure (\<lambda>(width, lines, chunks). chunks_size chunks)")
  show "wf (measure (\<lambda>(width, lines, chunks). chunks_size chunks))" by simp
next
  fix width :: nat and lines chunks :: "string list" and x cur_line chunks'
  assume "chunks \<noteq> []" and "x = wrap_line width (lines \<noteq> []) chunks"
    and "(cur_line, chunks') = x"
  then have "chunks' = snd (wrap_line width (lines \<noteq> []) chunks)"
    by (metis snd_conv)
  with wrap_line_size [OF \<open>chunks \<noteq> []\<close>, of width "lines \<noteq> []"]
  show "((width, if cur_line \<noteq> [] then lines @ [concat cur_line] else lines, chunks'),
         width, lines, chunks) \<in> measure (\<lambda>(width, lines, chunks). chunks_size chunks)"
    by simp
qed

declare wrap_chunks_loop.simps [simp del]

text \<open>\<open>_wrap_chunks\<close>: a width below 1 is refused before any line is built.\<close>

definition wrap_chunks :: "int \<Rightarrow> string list \<Rightarrow> error + string list" where
  "wrap_chunks width chunks =
     (if width \<le> 0 then Inl ValueError else Inr (wrap_chunks_loop (nat width) [] chunks))"

definition textwrap_wrap :: "string \<Rightarrow> int \<Rightarrow> error + string list" where
  "textwrap_wrap text width = wrap_chunks width (split_chunks text)"

section \<open>The flashcard\<close>

definition MAX_WIDTH :: int where "MAX_WIDTH = 70"
definition MIN_CONTENT_HEIGHT :: int where "MIN_CONTENT_HEIGHT = 6"
definition BORDER :: string where "BORDER = ''*''"

record flashcard =
  max_card_width :: int
  min_content_height :: int
  topic :: string
  content :: string
  "keywords" :: "string option"
  hide_content :: bool

text \<open>\<open>__init__\<close>: a new card hides its content. \<open>keywords\<close> defaults to
  \<open>None\<close>, \<open>max_card_width\<close> to \<open>MAX_WIDTH\<close> and \<open>min_content_height\<close> to
  \<open>MIN_CONTENT_HEIGHT\<close>.\<close>

definition Flashcard :: "string \<Rightarrow> string \<Rightarrow> string option \<Rightarrow> int \<Rightarrow> int \<Rightarrow> flashcard" where
  "Flashcard topic' content' keywords' max_card_width' min_content_height' =
     \<lparr>max_card_width = max_card_width', min_content_height = min_content_height',
      topic = topic', content = content', keywords = keywords', hide_content = True\<rparr>"

definition format_data :: "string \<Rightarrow> int \<Rightarrow> error + string list" where
  "format_data line max_length =
     (let line = py_join '' '' (py_split line);
          words_in_line = replace_char (CHR 0x09) CHR '' '' (replace_char (CHR 0x0A) CHR '' '' line)
      in textwrap_wrap words_in_line (max_length - 5))"

text \<open>\<open>str.center\<close> takes a fill character: a \<open>border\<close> that is not one character
  long is a \<open>TypeError\<close>.\<close>

definition style_on_line :: "string \<Rightarrow> int \<Rightarrow> string \<Rightarrow> error + string" where
  "style_on_line line max_length border =
     (case border of
        [b] \<Rightarrow> Inr (center (center line (max_length - 2) CHR '' '') max_length b)
      | _ \<Rightarrow> Inl TypeError)"

text \<open>
  A call on a card takes the card and returns what it returns or raises, and the card as it
  leaves it. \<open>bind_m\<close> runs one call after another: an exception ends the
  sequence. \<open>call\<close> is a call of a function that leaves the card alone.
\<close>

type_synonym 'a action = "flashcard \<Rightarrow> (error + 'a) \<times> flashcard"

definition return_m :: "'a \<Rightarrow> 'a action" where
  "return_m x self = (Inr x, self)"

definition call :: "error + 'a \<Rightarrow> 'a action" where
  "call r self = (r, self)"

definition bind_m :: "'a action \<Rightarrow> ('a \<Rightarrow> 'b action) \<Rightarrow> 'b action" where
  "bind_m m f self = (case m self of (Inl e, self') \<Rightarrow> (Inl e, self') | (Inr x, self') \<Rightarrow> f x self')"

text \<open>The list comprehension \<open>[f(l) for l in lines]\<close>: the first call that raises
  ends it.\<close>

fun collect :: "('a \<Rightarrow> error + 'b) \<Rightarrow> 'a list \<Rightarrow> error + 'b list" where
  "collect f [] = Inr []"
| "collect f (x # xs) =
     (case f x of
        Inl e \<Rightarrow> Inl e
      | Inr y \<Rightarrow> (case collect f xs of Inl e \<Rightarrow> Inl e | Inr ys \<Rightarrow> Inr (y # ys)))"

definition get_topic :: "string list action" where
  "get_topic self =
     bind_m (call (format_data (topic self) (max_card_width self))) (\<lambda>formatted.
       call (collect (\<lambda>l. style_on_line l (max_card_width self) BORDER)
               ([''''] @ formatted @ ['''']))) self"

definition initial_content :: string where
  "initial_content = ''Press [Enter] to show content''"

definition get_content :: "string list action" where
  "get_content self =
     bind_m (call (format_data (content self) (max_card_width self))) (\<lambda>formatted_content.
     bind_m (if hide_content self
             then call (format_data initial_content (max_card_width self))
             else return_m formatted_content) (\<lambda>shown.
       let content_lines = [''''] @ shown @ [''''];
           current_height = int (length content_lines);
           expected_height = int (length formatted_content);
           min_height = min_content_height self;
           height = (if expected_height > min_height then expected_height else min_height);
           height = (if current_height > height then current_height else height);
           content_lines = content_lines @ replicate (nat (height - current_height)) ''''
       in call (collect (\<lambda>l. style_on_line l (max_card_width self) BORDER) content_lines))) self"

text \<open>\<open>format_data\<close> calls \<open>line.split()\<close>: without keywords that is an
  \<open>AttributeError\<close>.\<close>

definition get_keywords :: "string list action" where
  "get_keywords self =
     bind_m (call (case keywords self of
                     None \<Rightarrow> Inl AttributeError
                   | Some k \<Rightarrow> format_data k (max_card_width self))) (\<lambda>formatted.
       call (collect (\<lambda>l. style_on_line l (max_card_width self) BORDER)
               ([''''] @ formatted @ ['''']))) self"

text \<open>\<open>if self.keywords\<close>: \<open>None\<close> and the empty string are false.\<close>

definition truthy :: "string option \<Rightarrow> bool" where
  "truthy k = (case k of None \<Rightarrow> False | Some s \<Rightarrow> s \<noteq> [])"

definition get_lines_to_draw :: "string \<Rightarrow> string list action" where
  "get_lines_to_draw border self =
     (let lines = [[CHR 0x0A]];
          horizontal_border = concat (replicate (nat (max_card_width self)) border);
          lines = lines @ [horizontal_border]
      in bind_m get_topic (\<lambda>topic_lines.
         let lines = lines @ topic_lines;
             lines = lines @ [horizontal_border];
             lines = lines @ [horizontal_border]
         in bind_m get_content (\<lambda>content_lines self.
            let lines = lines @ content_lines
            in bind_m (if truthy (keywords self)
                       then bind_m get_keywords (\<lambda>keywords_lines.
                              return_m (lines @ [horizontal_border] @ [horizontal_border]
                                          @ keywords_lines))
                       else return_m lines) (\<lambda>lines.
                 return_m (lines @ [horizontal_border])) self)) self)"

text \<open>What the terminal sees: a command passed to \<open>os.system\<close>, a printed line, a
  line read by \<open>input()\<close>.\<close>

datatype event = System string | Print string | Input

type_synonym 'a io = "event list \<times> (error + 'a) \<times> flashcard"

definition draw :: "flashcard \<Rightarrow> unit io" where
  "draw self =
     (case get_lines_to_draw BORDER self of
        (Inl e, self') \<Rightarrow> ([], Inl e, self')
      | (Inr lines, self') \<Rightarrow>
          (map Print lines, Inr (), self'\<lparr>hide_content := \<not> hide_content self'\<rparr>))"

definition clean :: "string \<Rightarrow> event list" where
  "clean os_name = (if os_name = ''posix'' then [System ''clear''] else [System ''cls''])"

definition run :: "string \<Rightarrow> flashcard \<Rightarrow> unit io" where
  "run os_name self = (case draw self of (out, r, self') \<Rightarrow> (clean os_name @ out, r, self'))"

text \<open>\<open>random.shuffle\<close>: for \<open>i\<close> from the last index down to 1, the element at
  \<open>i\<close> changes places with the one at \<open>randbelow(i + 1)\<close>. \<open>rnd\<close> is the source of
  randomness: \<open>rnd i mod (i + 1)\<close> is the number drawn at \<open>i\<close>.\<close>

fun shuffle_from :: "(nat \<Rightarrow> nat) \<Rightarrow> nat \<Rightarrow> 'a list \<Rightarrow> 'a list" where
  "shuffle_from rnd 0 x = x"
| "shuffle_from rnd (Suc i) x =
     (let j = rnd (Suc i) mod (Suc i + 1)
      in shuffle_from rnd i (x[Suc i := x ! j, j := x ! Suc i]))"

definition shuffle :: "(nat \<Rightarrow> nat) \<Rightarrow> 'a list \<Rightarrow> 'a list" where
  "shuffle rnd x = shuffle_from rnd (length x - 1) x"

text \<open>\<open>input()\<close> reads the next line of standard input, and the line is thrown away;
  when there is no line left it raises \<open>EOFError\<close>. \<open>stdin\<close> holds the lines still to
  be read.\<close>

definition input :: "string list \<Rightarrow> (error + string) \<times> string list" where
  "input stdin = (case stdin of [] \<Rightarrow> (Inl EOFError, []) | l # rest \<Rightarrow> (Inr l, rest))"

text \<open>\<open>for _ in range(n): fc.run(); input()\<close>: the events, the outcome, the card and
  the input left.\<close>

fun run_times ::
  "nat \<Rightarrow> string \<Rightarrow> flashcard \<Rightarrow> string list \<Rightarrow> event list \<times> (error + unit) \<times> flashcard \<times> string list" where
  "run_times 0 os_name fc stdin = ([], Inr (), fc, stdin)"
| "run_times (Suc n) os_name fc stdin =
     (case run os_name fc of
        (out, Inl e, fc') \<Rightarrow> (out, Inl e, fc', stdin)
      | (out, Inr _, fc') \<Rightarrow>
          (case input stdin of
             (Inl e, stdin') \<Rightarrow> (out, Inl e, fc', stdin')
           | (Inr _, stdin') \<Rightarrow>
               (case run_times n os_name fc' stdin' of
                  (out', r, fc'', stdin'') \<Rightarrow> (out @ [Input] @ out', r, fc'', stdin''))))"

text \<open>\<open>for fc in flashcards\<close>: the events, the outcome, the cards as they are left and
  the input left.\<close>

fun run_each ::
  "string \<Rightarrow> flashcard list \<Rightarrow> string list \<Rightarrow> event list \<times> (error + unit) \<times> flashcard list \<times> string list" where
  "run_each os_name [] stdin = ([], Inr (), [], stdin)"
| "run_each os_name (fc # fcs) stdin =
     (case run_times 2 os_name fc stdin of
        (out, Inl e, fc', stdin') \<Rightarrow> (out, Inl e, fc' # fcs, stdin')
      | (out, Inr _, fc', stdin') \<Rightarrow>
          (case run_each os_name fcs stdin' of
             (out', r, fcs', stdin'') \<Rightarrow> (out @ out', r, fc' # fcs', stdin'')))"

definition run_flashcards ::
  "(nat \<Rightarrow> nat) \<Rightarrow> string \<Rightarrow> flashcard list \<Rightarrow> bool \<Rightarrow> string list
     \<Rightarrow> event list \<times> (error + unit) \<times> flashcard list \<times> string list" where
  "run_flashcards rnd os_name flashcards ordered stdin =
     run_each os_name (if \<not> ordered then shuffle rnd flashcards else flashcards) stdin"

section \<open>Notions used to state the properties\<close>

text \<open>A line as \<open>style_on_line\<close> frames it with the default border.\<close>

definition framed :: "int \<Rightarrow> string \<Rightarrow> string" where
  "framed width line = center (center line (width - 2) CHR '' '') width CHR ''*''"

text \<open>Stripping the characters that satisfy \<open>p\<close> from both ends of a string.\<close>

definition strip_chars :: "(char \<Rightarrow> bool) \<Rightarrow> string \<Rightarrow> string" where
  "strip_chars p s = rev (dropWhile p (rev (dropWhile p s)))"

text \<open>A string that neither begins nor ends with a character satisfying \<open>p\<close>.\<close>

definition clean_ends :: "(char \<Rightarrow> bool) \<Rightarrow> string \<Rightarrow> bool" where
  "clean_ends p s = (case s of [] \<Rightarrow> True | c # _ \<Rightarrow> \<not> p c \<and> \<not> p (last s))"

text \<open>A string whose first character, or whose last character, is \<open>c\<close>.\<close>

definition begins_with :: "char \<Rightarrow> string \<Rightarrow> bool" where
  "begins_with c s = (case s of [] \<Rightarrow> False | x # _ \<Rightarrow> x = c)"

definition ends_with :: "char \<Rightarrow> string \<Rightarrow> bool" where
  "ends_with c s = begins_with c (rev s)"

text \<open>The lines \<open>format_data\<close> returns, when it returns.\<close>

definition wrapped :: "string \<Rightarrow> int \<Rightarrow> string list" where
  "wrapped text width = (case format_data text width of Inl e \<Rightarrow> [] | Inr ls \<Rightarrow> ls)"

text \<open>A full-width border line: \<open>border * max_card_width\<close>.\<close>

definition border_line :: "string \<Rightarrow> flashcard \<Rightarrow> string" where
  "border_line border self = concat (replicate (nat (max_card_width self)) border)"

text \<open>An answer that takes five lines at the default width.\<close>

definition long_answer :: string where
  "long_answer = ''Paris is the capital and most populous city of France; it lies on the river Seine, in the north of the country, and has been a major centre of finance, diplomacy, commerce, fashion and science since the seventeenth century, which is why so many treaties bear its name and why its museums hold so much of what Europe painted.''"

text \<open>The lines \<open>get_lines_to_draw\<close> returns with the default border, when it returns.\<close>

definition rendered :: "flashcard \<Rightarrow> string list" where
  "rendered self = (case fst (get_lines_to_draw BORDER self) of Inl e \<Rightarrow> [] | Inr ls \<Rightarrow> ls)"

text \<open>What the terminal sees of one card shown in two phases: the screen cleared (with
  \<open>clear\<close> on a POSIX system and \<open>cls\<close> elsewhere), the card drawn with its content
  hidden, a line read, the screen cleared again, the card drawn with its content shown, a
  line read.\<close>

definition two_phases :: "string \<Rightarrow> flashcard \<Rightarrow> event list" where
  "two_phases os_name self =
     [System (if os_name = ''posix'' then ''clear'' else ''cls'')]
     @ map Print (rendered (self\<lparr>hide_content := True\<rparr>)) @ [Input]
     @ [System (if os_name = ''posix'' then ''clear'' else ''cls'')]
     @ map Print (rendered (self\<lparr>hide_content := False\<rparr>)) @ [Input]"

text \<open>A source of randomness that always draws 0.\<close>

definition draws_zero :: "nat \<Rightarrow> nat" where
  "draws_zero i = 0"

text \<open>The chunks of words separated by single spaces, and the same with a space before
  every word.\<close>

definition sepd :: "string list \<Rightarrow> string list" where
  "sepd ws = concat (map (\<lambda>w. ['' '', w]) ws)"

definition spaced :: "string list \<Rightarrow> string list" where
  "spaced ws = (case ws of [] \<Rightarrow> [] | w # ws' \<Rightarrow> w # sepd ws')"

text \<open>A word that fits in \<open>width\<close> columns and has neither whitespace nor a hyphen.\<close>

definition plain_word :: "nat \<Rightarrow> string \<Rightarrow> bool" where
  "plain_word width w =
     (w \<noteq> [] \<and> length w \<le> width \<and> list_all (\<lambda>c. \<not> py_isspace c \<and> c \<noteq> CHR ''-'') w)"

section \<open>Framing a line\<close>

lemma length_center: "length (center s w f) = (if w \<le> int (length s) then length s else nat w)"
  by (auto simp: center_def Let_def)

lemma strip_chars_pad:
  assumes "list_all p xs" and "list_all p ys" and "clean_ends p s"
  shows "strip_chars p (xs @ s @ ys) = s"
proof (cases s rule: rev_cases)
  case Nil
  have "\<forall>x\<in>set (xs @ ys). p x" using assms by (auto simp: list_all_iff)
  then have d: "dropWhile p (xs @ ys) = []" by (simp only: dropWhile_eq_Nil_conv)
  show ?thesis unfolding strip_chars_def Nil append_Nil d by simp
next
  case (snoc cs c)
  then have "last s = c" and ne: "s \<noteq> []" by simp_all
  with assms(3) have la: "\<not> p c" and hd: "\<not> p (hd s)"
    by (cases s; simp add: clean_ends_def)+
  have "dropWhile p (xs @ s @ ys) = dropWhile p (s @ ys)"
    using assms(1) by (simp add: list_all_iff dropWhile_append)
  also have "\<dots> = s @ ys" using hd ne by (cases s) simp_all
  finally have 1: "dropWhile p (xs @ s @ ys) = s @ ys" .
  have "dropWhile p (rev (s @ ys)) = dropWhile p (rev s)"
    using assms(2) by (simp add: list_all_iff dropWhile_append)
  also have "\<dots> = rev s" using la snoc by simp
  finally show ?thesis using 1 by (simp add: strip_chars_def)
qed

lemma style_on_line_BORDER: "style_on_line line w BORDER = Inr (framed w line)"
  by (simp add: style_on_line_def BORDER_def framed_def)

lemma collect_Inr: "(\<And>x. f x = Inr (g x)) \<Longrightarrow> collect f xs = Inr (map g xs)"
  by (induction xs) simp_all

lemma collect_style: "collect (\<lambda>l. style_on_line l w BORDER) ls = Inr (map (framed w) ls)"
  by (rule collect_Inr) (rule style_on_line_BORDER)

lemma center_pad:
  "int (length s) < w \<Longrightarrow> \<exists>l r. center s w f = replicate l f @ s @ replicate r f \<and> int (l + r) = w - int (length s)"
proof -
  assume a: "int (length s) < w"
  define marg where "marg = nat (w - int (length s))"
  define l where "l = marg div 2 + (if odd marg \<and> odd w then 1 else 0)"
  have "l \<le> marg" using a by (auto simp: l_def marg_def elim: oddE)
  then have "int (l + (marg - l)) = w - int (length s)" using a by (simp add: marg_def)
  moreover have "center s w f = replicate l f @ s @ replicate (marg - l) f"
    using a by (simp add: center_def Let_def l_def marg_def)
  ultimately show ?thesis by blast
qed


lemma clean_ends_iff: "clean_ends p s \<longleftrightarrow> s = [] \<or> (\<not> p (hd s) \<and> \<not> p (last s))"
  by (cases s) (simp_all add: clean_ends_def)

lemma strip_chars_clean: "clean_ends p s \<Longrightarrow> strip_chars p s = s"
  using strip_chars_pad [of p "[]" "[]" s] by simp

lemma begins_with_iff: "begins_with c s \<longleftrightarrow> s \<noteq> [] \<and> hd s = c"
  by (cases s) (simp_all add: begins_with_def)

lemma ends_with_iff: "ends_with c s \<longleftrightarrow> s \<noteq> [] \<and> last s = c"
  by (cases s rule: rev_cases) (simp_all add: ends_with_def begins_with_def)

lemma clean_ends_begins_ends:
  "clean_ends ((=) c) s \<longleftrightarrow> \<not> begins_with c s \<and> \<not> ends_with c s"
  by (auto simp: clean_ends_iff begins_with_iff ends_with_iff)

lemma clean_ends_padded:
  assumes "b \<noteq> f" and "0 < l + r"
    and "l = 0 \<Longrightarrow> \<not> begins_with b line" and "r = 0 \<Longrightarrow> \<not> ends_with b line"
  shows "clean_ends ((=) b) (replicate l f @ line @ replicate r f)"
proof -
  have hd: "hd (replicate l f @ line @ replicate r f) \<noteq> b"
  proof (cases l)
    case 0
    show ?thesis
    proof (cases line)
      case Nil
      with 0 assms(2) have "0 < r" by simp
      then show ?thesis using 0 Nil assms(1) by (cases r) auto
    next
      case (Cons c cs)
      then show ?thesis using 0 assms(3) by (auto simp: begins_with_def)
    qed
  next
    case (Suc n)
    then show ?thesis using assms(1) by auto
  qed
  have la: "last (replicate l f @ line @ replicate r f) \<noteq> b"
  proof (cases r)
    case 0
    show ?thesis
    proof (cases "line = []")
      case True
      with 0 assms(2) have "0 < l" by simp
      then show ?thesis using 0 True assms(1) by (cases l) auto
    next
      case False
      then show ?thesis using 0 assms(4) by (auto simp: ends_with_iff)
    qed
  next
    case (Suc n)
    then show ?thesis using assms(1) by (auto simp: last_append)
  qed
  have "replicate l f @ line @ replicate r f \<noteq> []" using assms(2) by auto
  with hd la show ?thesis by (auto simp: clean_ends_iff)
qed

text \<open>
  Claim C4, as the code has it: a line no longer than \<open>width\<close> is framed to a string of
  length exactly \<open>width\<close>; and stripping the border character from both ends and then
  the spaces gives the line back when the line is shorter than \<open>width - 2\<close>, neither
  begins nor ends with a space, and, if it is exactly \<open>width - 3\<close> long, does not begin
  with the border character when \<open>width\<close> is even nor end with it when \<open>width\<close> is
  odd (one space of padding goes to one side only, and the other side of the line touches
  the border). \<open>str.center\<close> never shortens a string, so a longer line comes back longer
  than \<open>width\<close>.
\<close>

theorem style_on_line_length_strip:
  assumes "int (length line) \<le> width"
  shows "\<exists>s. style_on_line line width [b] = Inr s \<and> int (length s) = width \<and>
           (int (length line) < width - 2
            \<and> \<not> begins_with CHR '' '' line \<and> \<not> ends_with CHR '' '' line
            \<and> (int (length line) = width - 3 \<and> even width \<longrightarrow> \<not> begins_with b line)
            \<and> (int (length line) = width - 3 \<and> odd width \<longrightarrow> \<not> ends_with b line)
              \<longrightarrow> strip_chars ((=) CHR '' '') (strip_chars ((=) b) s) = line)"
proof -
  define inner where "inner = center line (width - 2) CHR '' ''"
  define s where "s = center inner width b"
  have res: "style_on_line line width [b] = Inr s"
    by (simp add: style_on_line_def s_def inner_def)
  have len: "int (length s) = width"
    using assms by (auto simp: s_def inner_def length_center)
  have strip: "strip_chars ((=) CHR '' '') (strip_chars ((=) b) s) = line"
    if short: "int (length line) < width - 2"
      and sb: "\<not> begins_with CHR '' '' line" and se: "\<not> ends_with CHR '' '' line"
      and bb: "int (length line) = width - 3 \<and> even width \<longrightarrow> \<not> begins_with b line"
      and be: "int (length line) = width - 3 \<and> odd width \<longrightarrow> \<not> ends_with b line"
  proof -
    have cs: "clean_ends ((=) CHR '' '') line" using sb se by (simp add: clean_ends_begins_ends)
    define marg where "marg = nat (width - 2 - int (length line))"
    define l where "l = marg div 2 + (if odd marg \<and> odd (width - 2) then 1 else 0)"
    define r where "r = marg - l"
    have marg: "0 < marg" "int marg = width - 2 - int (length line)"
      using short by (simp_all add: marg_def)
    have "l \<le> marg" by (auto simp: l_def elim: oddE)
    then have lr: "l + r = marg" by (simp add: r_def)
    have inner: "inner = replicate l CHR '' '' @ line @ replicate r CHR '' ''"
      using short by (simp add: inner_def center_def Let_def l_def r_def marg_def)
    have l0: "int (length line) = width - 3 \<and> even width" if "l = 0"
    proof -
      from that have "marg div 2 = 0" "\<not> (odd marg \<and> odd (width - 2))"
        by (simp_all add: l_def split: if_splits)
      with marg(1) have "marg = 1" "even width" by (auto simp: div_eq_0_iff) 
      with marg(2) show ?thesis by simp
    qed
    have r0: "int (length line) = width - 3 \<and> odd width" if "r = 0"
    proof -
      from that lr have "l = marg" by simp
      then have "marg = 1 \<and> odd (width - 2)" using marg(1)
        by (auto simp: l_def split: if_splits elim: oddE)
      with marg(2) show ?thesis by simp
    qed
    have "int (length inner) < width" using lr marg(2) by (simp add: inner)
    from center_pad [OF this, of b] obtain l' r' where
      outer: "s = replicate l' b @ inner @ replicate r' b"
      by (auto simp: s_def)
    show ?thesis
    proof (cases "b = CHR '' ''")
      case True
      have cb: "clean_ends ((=) b) line" using cs True by simp
      have "s = replicate (l' + l) b @ line @ replicate (r + r') b"
        by (simp add: outer inner True replicate_add)
      moreover have "strip_chars ((=) b) (replicate (l' + l) b @ line @ replicate (r + r') b) = line"
        by (rule strip_chars_pad) (simp_all add: list_all_iff cb)
      ultimately have "strip_chars ((=) b) s = line" by simp
      then show ?thesis using cs by (simp add: strip_chars_clean)
    next
      case False
      have "0 < l + r" using lr marg(1) by simp
      from clean_ends_padded [OF False this] l0 r0 bb be
      have "clean_ends ((=) b) inner" unfolding inner by blast
      then have "strip_chars ((=) b) (replicate l' b @ inner @ replicate r' b) = inner"
        by (intro strip_chars_pad) (simp_all add: list_all_iff)
      then have "strip_chars ((=) b) s = inner" by (simp only: outer)
      moreover have "strip_chars ((=) CHR '' '') (replicate l CHR '' '' @ line @ replicate r CHR '' '') = line"
        by (rule strip_chars_pad) (simp_all add: list_all_iff cs)
      then have "strip_chars ((=) CHR '' '') inner = line" by (simp only: inner)
      ultimately show ?thesis by simp
    qed
  qed
  from res len strip show ?thesis by blast
qed

theorem style_on_line_length_strip_witness:
  "int (length ''*args'') \<le> 70 \<and>
   (\<exists>s. style_on_line ''*args'' 70 ''*'' = Inr s \<and> int (length s) = 70 \<and>
           strip_chars ((=) CHR '' '') (strip_chars ((=) CHR ''*'') s) = ''*args'')"
  using style_on_line_length_strip [of "''*args''" 70 "CHR ''*''"]
  by (simp add: begins_with_def ends_with_def)

theorem style_on_line_counterexample:
  "style_on_line ''abcd'' 3 ''*'' = Inr ''abcd''
   \<and> style_on_line ''*ab'' 6 ''*'' = Inr ''**ab *''
   \<and> strip_chars ((=) CHR '' '') (strip_chars ((=) CHR ''*'') ''**ab *'') = ''ab''
   \<and> style_on_line ''abc*'' 7 ''*'' = Inr ''* abc**''
   \<and> strip_chars ((=) CHR '' '') (strip_chars ((=) CHR ''*'') ''* abc**'') = ''abc''
   \<and> style_on_line '' a'' 7 ''*'' = Inr ''*   a *''
   \<and> strip_chars ((=) CHR '' '') (strip_chars ((=) CHR ''*'') ''*   a *'') = ''a''
   \<and> style_on_line ''a '' 7 ''*'' = Inr ''*  a  *''
   \<and> strip_chars ((=) CHR '' '') (strip_chars ((=) CHR ''*'') ''*  a  *'') = ''a''"
  by (simp add: style_on_line_def center_def strip_chars_def)

section \<open>Rendering a card\<close>

lemma format_data_err: "w \<le> 5 \<Longrightarrow> format_data s w = Inl ValueError"
  by (simp add: format_data_def textwrap_wrap_def wrap_chunks_def Let_def)

lemma format_data_ok: "5 < w \<Longrightarrow> format_data s w = Inr (wrapped s w)"
  by (simp add: wrapped_def format_data_def textwrap_wrap_def wrap_chunks_def Let_def)

lemma get_topic_err: "max_card_width c \<le> 5 \<Longrightarrow> get_topic c = (Inl ValueError, c)"
  by (simp add: get_topic_def bind_m_def call_def format_data_err)

lemma get_topic_ok:
  "5 < max_card_width c \<Longrightarrow>
   get_topic c = (Inr (map (framed (max_card_width c)) ([''''] @ wrapped (topic c) (max_card_width c) @ [''''])), c)"
  by (simp add: get_topic_def bind_m_def call_def format_data_ok collect_style)

lemma get_keywords_ok:
  "5 < max_card_width c \<Longrightarrow> keywords c = Some k \<Longrightarrow>
   get_keywords c = (Inr (map (framed (max_card_width c)) ([''''] @ wrapped k (max_card_width c) @ [''''])), c)"
  by (simp add: get_keywords_def bind_m_def call_def format_data_ok collect_style)

lemma get_content_err: "max_card_width c \<le> 5 \<Longrightarrow> get_content c = (Inl ValueError, c)"
  by (simp add: get_content_def bind_m_def call_def format_data_err)

text \<open>The unpadded lines of the content block, and the height it is padded to.\<close>

lemma get_content_ok:
  assumes "5 < max_card_width c"
  shows "get_content c =
     (Inr (map (framed (max_card_width c))
       (let shown = (if hide_content c then wrapped initial_content (max_card_width c)
                     else wrapped (content c) (max_card_width c));
            body = [''''] @ shown @ ['''']
        in body @ replicate (nat (max (max (min_content_height c)
                    (int (length (wrapped (content c) (max_card_width c))))) (int (length body))
                    - int (length body))) '''')), c)"
  using assms
  by (simp add: get_content_def bind_m_def call_def return_m_def format_data_ok collect_style Let_def max_def)

lemma snd_get_topic: "snd (get_topic c) = c"
  by (cases "5 < max_card_width c") (simp_all add: get_topic_ok get_topic_err)

lemma snd_get_content: "snd (get_content c) = c"
  by (cases "5 < max_card_width c") (simp_all add: get_content_ok get_content_err)

lemma snd_get_keywords: "snd (get_keywords c) = c"
  by (simp add: get_keywords_def bind_m_def call_def split: sum.splits)


lemma render_err: "max_card_width c \<le> 5 \<Longrightarrow> get_lines_to_draw b c = (Inl ValueError, c)"
  by (simp add: get_lines_to_draw_def Let_def bind_m_def get_topic_err)

lemma render_ok:
  assumes "5 < max_card_width c"
  shows "\<exists>t cb kb. get_topic c = (Inr t, c) \<and> get_content c = (Inr cb, c)
           \<and> (truthy (keywords c) \<longrightarrow> get_keywords c = (Inr kb, c))
           \<and> get_lines_to_draw b c =
               (Inr ([[CHR 0x0A]] @ [border_line b c] @ t @ [border_line b c, border_line b c] @ cb
                     @ (if truthy (keywords c) then [border_line b c, border_line b c] @ kb else [])
                     @ [border_line b c]), c)"
proof -
  obtain t where t: "get_topic c = (Inr t, c)" using get_topic_ok [OF assms] by blast
  obtain cb where cb: "get_content c = (Inr cb, c)" using get_content_ok [OF assms] by blast
  show ?thesis
  proof (cases "truthy (keywords c)")
    case True
    then obtain k where "keywords c = Some k" by (auto simp: truthy_def split: option.splits)
    from get_keywords_ok [OF assms this] obtain kb where kb: "get_keywords c = (Inr kb, c)" by blast
    have "get_lines_to_draw b c =
               (Inr ([[CHR 0x0A]] @ [border_line b c] @ t @ [border_line b c, border_line b c] @ cb
                     @ ([border_line b c, border_line b c] @ kb)
                     @ [border_line b c]), c)"
      by (simp add: get_lines_to_draw_def Let_def bind_m_def return_m_def t cb kb True border_line_def)
    with t cb kb True show ?thesis by auto
  next
    case False
    have "get_lines_to_draw b c =
               (Inr ([[CHR 0x0A]] @ [border_line b c] @ t @ [border_line b c, border_line b c] @ cb
                     @ [border_line b c]), c)"
      by (simp add: get_lines_to_draw_def Let_def bind_m_def return_m_def t cb False border_line_def)
    with t cb False show ?thesis by auto
  qed
qed

lemma snd_render: "snd (get_lines_to_draw b c) = c"
proof (cases "5 < max_card_width c")
  case True
  from render_ok [OF True, of b] show ?thesis by auto
next
  case False
  then show ?thesis by (simp add: render_err)
qed

lemma draw_ok:
  assumes "5 < max_card_width c"
  shows "\<exists>ls. get_lines_to_draw BORDER c = (Inr ls, c)
           \<and> draw c = (map Print ls, Inr (), c\<lparr>hide_content := \<not> hide_content c\<rparr>)"
proof -
  from render_ok [OF assms, of BORDER] obtain ls where "get_lines_to_draw BORDER c = (Inr ls, c)"
    by blast
  then show ?thesis by (simp add: draw_def)
qed

lemma draw_err: "max_card_width c \<le> 5 \<Longrightarrow> draw c = ([], Inl ValueError, c)"
  by (simp add: draw_def render_err)

text \<open>
  Claim C10: \<open>get_topic\<close>, \<open>get_content\<close>, \<open>get_keywords\<close> and
  \<open>get_lines_to_draw\<close> leave the whole card as it was, the visibility flag included;
  \<open>draw\<close> leaves \<open>max_card_width\<close>, \<open>min_content_height\<close>, \<open>topic\<close>,
  \<open>content\<close> and \<open>keywords\<close> unchanged, and changes \<open>hide_content\<close> alone: it
  flips it when the lines were printed, and not when rendering raised.
\<close>

theorem draw_changes_only_visibility:
  "snd (get_topic c) = c \<and> snd (get_content c) = c \<and> snd (get_keywords c) = c
   \<and> snd (get_lines_to_draw b c) = c
   \<and> snd (snd (draw c)) =
       (case fst (snd (draw c)) of Inl e \<Rightarrow> c | Inr u \<Rightarrow> c\<lparr>hide_content := \<not> hide_content c\<rparr>)
   \<and> max_card_width (snd (snd (draw c))) = max_card_width c
   \<and> min_content_height (snd (snd (draw c))) = min_content_height c
   \<and> topic (snd (snd (draw c))) = topic c
   \<and> content (snd (snd (draw c))) = content c
   \<and> keywords (snd (snd (draw c))) = keywords c"
proof (cases "5 < max_card_width c")
  case True
  from draw_ok [OF True] obtain ls where
    "draw c = (map Print ls, Inr (), c\<lparr>hide_content := \<not> hide_content c\<rparr>)" by blast
  then show ?thesis by (simp add: snd_get_topic snd_get_content snd_get_keywords snd_render)
next
  case False
  then have "draw c = ([], Inl ValueError, c)" by (simp add: draw_err)
  then show ?thesis by (simp add: snd_get_topic snd_get_content snd_get_keywords snd_render)
qed

theorem draw_changes_only_visibility_witness:
  "snd (snd (draw (Flashcard ''t'' ''c'' None 70 6))) =
     \<lparr>max_card_width = 70, min_content_height = 6, topic = ''t'', content = ''c'',
      keywords = None, hide_content = False\<rparr>"
proof -
  have "fst (snd (draw (Flashcard ''t'' ''c'' None 70 6))) = Inr ()"
    using draw_ok [of "Flashcard ''t'' ''c'' None 70 6"] by (auto simp: Flashcard_def)
  then show ?thesis
    using draw_changes_only_visibility [of "Flashcard ''t'' ''c'' None 70 6" BORDER]
    by (simp add: Flashcard_def)
qed


text \<open>
  Claim C6, as the code has it: for a card wider than 5 columns, \<open>get_lines_to_draw\<close>
  returns, in order, the newline marker line, one border line, the topic block, two
  border lines, the content block, then, exactly when \<open>keywords\<close> is present and not
  the empty string, two border lines and the keywords block, and a final border line.
\<close>

theorem render_concatenation:
  assumes "5 < max_card_width c"
  shows "\<exists>t cb kb. fst (get_topic c) = Inr t \<and> fst (get_content c) = Inr cb
           \<and> (truthy (keywords c) \<longrightarrow> fst (get_keywords c) = Inr kb)
           \<and> fst (get_lines_to_draw b c) =
               Inr ([[CHR 0x0A]] @ [border_line b c] @ t @ [border_line b c, border_line b c] @ cb
                    @ (if truthy (keywords c) then [border_line b c, border_line b c] @ kb else [])
                    @ [border_line b c])"
proof -
  from render_ok [OF assms, of b] obtain t cb kb where
    "get_topic c = (Inr t, c)" "get_content c = (Inr cb, c)"
    "truthy (keywords c) \<longrightarrow> get_keywords c = (Inr kb, c)"
    "get_lines_to_draw b c =
               (Inr ([[CHR 0x0A]] @ [border_line b c] @ t @ [border_line b c, border_line b c] @ cb
                     @ (if truthy (keywords c) then [border_line b c, border_line b c] @ kb else [])
                     @ [border_line b c]), c)"
    by blast
  then have "fst (get_topic c) = Inr t \<and> fst (get_content c) = Inr cb
           \<and> (truthy (keywords c) \<longrightarrow> fst (get_keywords c) = Inr kb)
           \<and> fst (get_lines_to_draw b c) =
               Inr ([[CHR 0x0A]] @ [border_line b c] @ t @ [border_line b c, border_line b c] @ cb
                    @ (if truthy (keywords c) then [border_line b c, border_line b c] @ kb else [])
                    @ [border_line b c])"
    by simp
  then show ?thesis by blast
qed

theorem render_concatenation_witness:
  "5 < max_card_width (Flashcard ''t'' ''c'' (Some ''k'') 70 6) \<and>
   (\<exists>t cb kb. fst (get_topic (Flashcard ''t'' ''c'' (Some ''k'') 70 6)) = Inr t
      \<and> fst (get_content (Flashcard ''t'' ''c'' (Some ''k'') 70 6)) = Inr cb
      \<and> fst (get_keywords (Flashcard ''t'' ''c'' (Some ''k'') 70 6)) = Inr kb
      \<and> fst (get_lines_to_draw ''*'' (Flashcard ''t'' ''c'' (Some ''k'') 70 6)) =
           Inr ([[CHR 0x0A]] @ [replicate 70 CHR ''*''] @ t @ [replicate 70 CHR ''*'', replicate 70 CHR ''*'']
                @ cb @ [replicate 70 CHR ''*'', replicate 70 CHR ''*''] @ kb @ [replicate 70 CHR ''*'']))"
proof -
  have w: "5 < max_card_width (Flashcard ''t'' ''c'' (Some ''k'') 70 6)"
    and k: "truthy (keywords (Flashcard ''t'' ''c'' (Some ''k'') 70 6))"
    and b: "border_line ''*'' (Flashcard ''t'' ''c'' (Some ''k'') 70 6) = replicate 70 CHR ''*''"
    by (simp_all add: Flashcard_def truthy_def border_line_def)
  from render_concatenation [OF w, of "''*''"] show ?thesis
    unfolding b using w k by auto
qed

text \<open>
  Claim C7: whatever the topic, content and keywords of the card, every border line of
  the rendered card (the second line, the two after the topic block, the two before the
  keywords block when there is one, and the last line) is the border character repeated
  \<open>max_card_width\<close> times.
\<close>

theorem border_lines_full_width:
  assumes "5 < max_card_width c"
  shows "\<exists>ls t cb. fst (get_lines_to_draw [b] c) = Inr ls
           \<and> fst (get_topic c) = Inr t \<and> fst (get_content c) = Inr cb
           \<and> ls ! 1 = replicate (nat (max_card_width c)) b
           \<and> ls ! (2 + length t) = replicate (nat (max_card_width c)) b
           \<and> ls ! (3 + length t) = replicate (nat (max_card_width c)) b
           \<and> (truthy (keywords c) \<longrightarrow>
                ls ! (4 + length t + length cb) = replicate (nat (max_card_width c)) b
                \<and> ls ! (5 + length t + length cb) = replicate (nat (max_card_width c)) b)
           \<and> last ls = replicate (nat (max_card_width c)) b"
proof -
  have bl: "border_line [b] c = replicate (nat (max_card_width c)) b"
    by (simp add: border_line_def)
  from render_ok [OF assms, of "[b]"] obtain t cb kb where
    t: "get_topic c = (Inr t, c)" and cb: "get_content c = (Inr cb, c)" and
    r: "get_lines_to_draw [b] c =
               (Inr ([[CHR 0x0A]] @ [border_line [b] c] @ t @ [border_line [b] c, border_line [b] c] @ cb
                     @ (if truthy (keywords c) then [border_line [b] c, border_line [b] c] @ kb else [])
                     @ [border_line [b] c]), c)"
    by blast
  define ls where "ls = [[CHR 0x0A]] @ [border_line [b] c] @ t @ [border_line [b] c, border_line [b] c] @ cb
                     @ (if truthy (keywords c) then [border_line [b] c, border_line [b] c] @ kb else [])
                     @ [border_line [b] c]"
  have "ls ! 1 = border_line [b] c" by (simp add: ls_def)
  moreover have "ls ! (2 + length t) = border_line [b] c" by (simp add: ls_def nth_append)
  moreover have "ls ! (3 + length t) = border_line [b] c" by (simp add: ls_def nth_append)
  moreover have "truthy (keywords c) \<longrightarrow> ls ! (4 + length t + length cb) = border_line [b] c
      \<and> ls ! (5 + length t + length cb) = border_line [b] c"
    by (simp add: ls_def nth_append)
  moreover have "last ls = border_line [b] c" by (simp add: ls_def)
  moreover have "fst (get_lines_to_draw [b] c) = Inr ls" by (simp add: r ls_def)
  ultimately show ?thesis using t cb unfolding bl by (intro exI [of _ ls] exI [of _ t] exI [of _ cb]) simp
qed


lemma wrapped_t: "wrapped ''t'' 70 = [''t'']"
  by code_simp

lemma wrapped_c: "wrapped ''c'' 70 = [''c'']"
  by code_simp

lemma wrapped_empty: "wrapped '''' 70 = []"
  by code_simp

lemma wrapped_initial: "wrapped initial_content 70 = [''Press [Enter] to show content'']"
  by code_simp

theorem render_counterexample:
  "keywords (Flashcard ''t'' ''c'' (Some '''') 70 6) = Some ''''
   \<and> fst (get_keywords (Flashcard ''t'' ''c'' (Some '''') 70 6)) = Inr [framed 70 '''', framed 70 '''']
   \<and> fst (get_lines_to_draw ''*'' (Flashcard ''t'' ''c'' (Some '''') 70 6)) =
       Inr ([[CHR 0x0A], replicate 70 CHR ''*'']
            @ [framed 70 '''', framed 70 ''t'', framed 70 '''']
            @ [replicate 70 CHR ''*'', replicate 70 CHR ''*'']
            @ [framed 70 '''', framed 70 ''Press [Enter] to show content'', framed 70 '''',
               framed 70 '''', framed 70 '''', framed 70 '''']
            @ [replicate 70 CHR ''*''])"
proof -
  define c where "c = Flashcard ''t'' ''c'' (Some '''') 70 6"
  have f: "max_card_width c = 70" "min_content_height c = 6" "topic c = ''t''" "content c = ''c''"
    "keywords c = Some ''''" "hide_content c"
    by (simp_all add: c_def Flashcard_def)
  have w: "5 < max_card_width c" by (simp add: f)
  have t: "get_topic c = (Inr [framed 70 '''', framed 70 ''t'', framed 70 ''''], c)"
    using get_topic_ok [OF w] by (simp add: f wrapped_t)
  have cb: "get_content c = (Inr [framed 70 '''', framed 70 ''Press [Enter] to show content'', framed 70 '''',
               framed 70 '''', framed 70 '''', framed 70 ''''], c)"
    using get_content_ok [OF w] by (simp add: f wrapped_c wrapped_initial Let_def numeral_eq_Suc)
  have kb: "get_keywords c = (Inr [framed 70 '''', framed 70 ''''], c)"
    using get_keywords_ok [OF w f(5)] by (simp add: f wrapped_empty)
  have "get_lines_to_draw ''*'' c = (Inr ([[CHR 0x0A], replicate 70 CHR ''*'']
            @ [framed 70 '''', framed 70 ''t'', framed 70 '''']
            @ [replicate 70 CHR ''*'', replicate 70 CHR ''*'']
            @ [framed 70 '''', framed 70 ''Press [Enter] to show content'', framed 70 '''',
               framed 70 '''', framed 70 '''', framed 70 '''']
            @ [replicate 70 CHR ''*'']), c)"
    by (simp add: get_lines_to_draw_def Let_def bind_m_def return_m_def t cb f truthy_def)
  with kb f(5) show ?thesis unfolding c_def [symmetric] by simp
qed


theorem border_lines_full_width_witness:
  "5 < max_card_width (Flashcard ''t'' ''c'' (Some ''k'') 70 6) \<and>
   (\<exists>ls t cb. fst (get_lines_to_draw ''*'' (Flashcard ''t'' ''c'' (Some ''k'') 70 6)) = Inr ls
           \<and> fst (get_topic (Flashcard ''t'' ''c'' (Some ''k'') 70 6)) = Inr t
           \<and> fst (get_content (Flashcard ''t'' ''c'' (Some ''k'') 70 6)) = Inr cb
           \<and> ls ! 1 = replicate 70 CHR ''*''
           \<and> ls ! (2 + length t) = replicate 70 CHR ''*''
           \<and> ls ! (3 + length t) = replicate 70 CHR ''*''
           \<and> ls ! (4 + length t + length cb) = replicate 70 CHR ''*''
           \<and> ls ! (5 + length t + length cb) = replicate 70 CHR ''*''
           \<and> last ls = replicate 70 CHR ''*'')"
proof -
  have w: "5 < max_card_width (Flashcard ''t'' ''c'' (Some ''k'') 70 6)"
    and k: "truthy (keywords (Flashcard ''t'' ''c'' (Some ''k'') 70 6))"
    and m: "nat (max_card_width (Flashcard ''t'' ''c'' (Some ''k'') 70 6)) = 70"
    by (simp_all add: Flashcard_def truthy_def)
  from border_lines_full_width [OF w, of "CHR ''*''"] show ?thesis
    unfolding m using w k by auto
qed

text \<open>
  Claim C9: the keywords block and the two border lines before it are left out of the
  rendered card when \<open>keywords\<close> is \<open>None\<close> and also when it is the empty string;
  they are there when \<open>keywords\<close> is a non-empty string.
\<close>

theorem keywords_block_by_truthiness:
  assumes "5 < max_card_width c"
  shows "\<exists>t cb kb. fst (get_topic c) = Inr t \<and> fst (get_content c) = Inr cb
           \<and> fst (get_lines_to_draw b c) =
               Inr ([[CHR 0x0A]] @ [border_line b c] @ t @ [border_line b c, border_line b c] @ cb
                    @ (case keywords c of
                         None \<Rightarrow> []
                       | Some k \<Rightarrow> if k = [] then [] else [border_line b c, border_line b c] @ kb)
                    @ [border_line b c])
           \<and> (case keywords c of
                 None \<Rightarrow> True
               | Some k \<Rightarrow> if k = [] then True else fst (get_keywords c) = Inr kb)"
proof -
  from render_ok [OF assms, of b] obtain t cb kb where
    "get_topic c = (Inr t, c)" "get_content c = (Inr cb, c)"
    "truthy (keywords c) \<longrightarrow> get_keywords c = (Inr kb, c)"
    "get_lines_to_draw b c =
               (Inr ([[CHR 0x0A]] @ [border_line b c] @ t @ [border_line b c, border_line b c] @ cb
                     @ (if truthy (keywords c) then [border_line b c, border_line b c] @ kb else [])
                     @ [border_line b c]), c)"
    by blast
  then have "fst (get_topic c) = Inr t \<and> fst (get_content c) = Inr cb
           \<and> fst (get_lines_to_draw b c) =
               Inr ([[CHR 0x0A]] @ [border_line b c] @ t @ [border_line b c, border_line b c] @ cb
                    @ (case keywords c of
                         None \<Rightarrow> []
                       | Some k \<Rightarrow> if k = [] then [] else [border_line b c, border_line b c] @ kb)
                    @ [border_line b c])
           \<and> (case keywords c of
                 None \<Rightarrow> True
               | Some k \<Rightarrow> if k = [] then True else fst (get_keywords c) = Inr kb)"
    by (auto simp: truthy_def split: option.splits)
  then show ?thesis by blast
qed

theorem keywords_block_by_truthiness_witness:
  "5 < max_card_width (Flashcard ''t'' ''c'' (Some '''') 70 6) \<and>
   (\<exists>t cb. fst (get_topic (Flashcard ''t'' ''c'' (Some '''') 70 6)) = Inr t
      \<and> fst (get_content (Flashcard ''t'' ''c'' (Some '''') 70 6)) = Inr cb
      \<and> fst (get_lines_to_draw ''*'' (Flashcard ''t'' ''c'' (Some '''') 70 6)) =
           Inr ([[CHR 0x0A]] @ [replicate 70 CHR ''*''] @ t
                @ [replicate 70 CHR ''*'', replicate 70 CHR ''*''] @ cb @ [replicate 70 CHR ''*'']))"
proof -
  have w: "5 < max_card_width (Flashcard ''t'' ''c'' (Some '''') 70 6)"
    and k: "keywords (Flashcard ''t'' ''c'' (Some '''') 70 6) = Some ''''"
    and b: "border_line ''*'' (Flashcard ''t'' ''c'' (Some '''') 70 6) = replicate 70 CHR ''*''"
    by (simp_all add: Flashcard_def border_line_def)
  from keywords_block_by_truthiness [OF w, of "''*''"] show ?thesis
    unfolding b k using w by auto
qed

section \<open>The height of the content block\<close>

lemma wrapped_long_answer:
  "wrapped long_answer 70 =
     [''Paris is the capital and most populous city of France; it lies on'',
      ''the river Seine, in the north of the country, and has been a'',
      ''major centre of finance, diplomacy, commerce, fashion and science'',
      ''since the seventeenth century, which is why so many treaties bear'',
      ''its name and why its museums hold so much of what Europe painted.'']"
  by code_simp


lemma wrapped_capital: "wrapped ''Capital of France'' 70 = [''Capital of France'']"
  by code_simp

lemma wrapped_geography: "wrapped ''geography'' 70 = [''geography'']"
  by code_simp

lemma content_block_height:
  assumes "5 < max_card_width c"
  shows "\<exists>cb. fst (get_content c) = Inr cb \<and>
           int (length cb) =
             max (max (min_content_height c) (int (length (wrapped (content c) (max_card_width c)))))
                 (2 + int (length (if hide_content c then wrapped initial_content (max_card_width c)
                                   else wrapped (content c) (max_card_width c))))"
  using get_content_ok [OF assms] by (auto simp: Let_def max_def)

lemma draw_twice_flag:
  assumes "5 < max_card_width c"
  shows "snd (snd (draw (snd (snd (draw c))))) = c"
proof -
  from draw_ok [OF assms] have 1: "snd (snd (draw c)) = c\<lparr>hide_content := \<not> hide_content c\<rparr>"
    by auto
  have "5 < max_card_width (c\<lparr>hide_content := \<not> hide_content c\<rparr>)" using assms by simp
  from draw_ok [OF this] show ?thesis unfolding 1 by auto
qed

text \<open>
  Claim C1 at a card the code can receive: with the default width and minimum height and
  an answer that wraps to five lines, the content block has six lines while the content
  is hidden and seven once it is shown. The block is padded to the largest of
  \<open>min_content_height\<close>, the number of wrapped content lines and its own unpadded
  height (\<open>content_block_height\<close>); the number of wrapped content lines leaves out the
  two blank lines that surround them in the block.
\<close>

theorem content_block_height_changes:
  "fst (get_content (Flashcard ''Capital of France'' long_answer (Some ''geography'') MAX_WIDTH MIN_CONTENT_HEIGHT)) =
     Inr (map (framed 70) ['''', ''Press [Enter] to show content'', '''', '''', '''', ''''])
   \<and> fst (get_content ((Flashcard ''Capital of France'' long_answer (Some ''geography'') MAX_WIDTH MIN_CONTENT_HEIGHT)
          \<lparr>hide_content := False\<rparr>)) =
     Inr (map (framed 70)
       ['''',
        ''Paris is the capital and most populous city of France; it lies on'',
        ''the river Seine, in the north of the country, and has been a'',
        ''major centre of finance, diplomacy, commerce, fashion and science'',
        ''since the seventeenth century, which is why so many treaties bear'',
        ''its name and why its museums hold so much of what Europe painted.'',
        ''''])"
proof -
  define c where "c = Flashcard ''Capital of France'' long_answer (Some ''geography'') MAX_WIDTH MIN_CONTENT_HEIGHT"
  have f: "max_card_width c = 70" "min_content_height c = 6" "content c = long_answer" "hide_content c"
    by (simp_all add: c_def Flashcard_def MAX_WIDTH_def MIN_CONTENT_HEIGHT_def)
  have w: "5 < max_card_width c" by (simp add: f)
  have w': "5 < max_card_width (c\<lparr>hide_content := False\<rparr>)" by (simp add: f)
  have "fst (get_content c) =
      Inr (map (framed 70) ['''', ''Press [Enter] to show content'', '''', '''', '''', ''''])"
    using get_content_ok [OF w] by (simp add: f wrapped_long_answer wrapped_initial Let_def numeral_eq_Suc)
  moreover have "fst (get_content (c\<lparr>hide_content := False\<rparr>)) =
     Inr (map (framed 70)
       ['''',
        ''Paris is the capital and most populous city of France; it lies on'',
        ''the river Seine, in the north of the country, and has been a'',
        ''major centre of finance, diplomacy, commerce, fashion and science'',
        ''since the seventeenth century, which is why so many treaties bear'',
        ''its name and why its museums hold so much of what Europe painted.'',
        ''''])"
    using get_content_ok [OF w'] by (simp add: f wrapped_long_answer Let_def)
  ultimately show ?thesis unfolding c_def by simp
qed

text \<open>
  Claim C2 at the same card: two calls of \<open>draw\<close> bring the card back to its first
  state (\<open>draw_twice_flag\<close>), but they print 19 lines and then 20.
\<close>

theorem draw_twice_line_count_changes:
  "length (fst (draw (Flashcard ''Capital of France'' long_answer (Some ''geography'') MAX_WIDTH MIN_CONTENT_HEIGHT))) = 19
   \<and> length (fst (draw (snd (snd (draw (Flashcard ''Capital of France'' long_answer (Some ''geography'') MAX_WIDTH MIN_CONTENT_HEIGHT)))))) = 20
   \<and> snd (snd (draw (snd (snd (draw (Flashcard ''Capital of France'' long_answer (Some ''geography'') MAX_WIDTH MIN_CONTENT_HEIGHT))))))
       = Flashcard ''Capital of France'' long_answer (Some ''geography'') MAX_WIDTH MIN_CONTENT_HEIGHT"
proof -
  define c where "c = Flashcard ''Capital of France'' long_answer (Some ''geography'') MAX_WIDTH MIN_CONTENT_HEIGHT"
  define c' where "c' = c\<lparr>hide_content := False\<rparr>"
  have f: "max_card_width c = 70" "min_content_height c = 6" "content c = long_answer" "hide_content c"
    "topic c = ''Capital of France''" "keywords c = Some ''geography''"
    by (simp_all add: c_def Flashcard_def MAX_WIDTH_def MIN_CONTENT_HEIGHT_def)
  have f': "max_card_width c' = 70" "min_content_height c' = 6" "content c' = long_answer" "\<not> hide_content c'"
    "topic c' = ''Capital of France''" "keywords c' = Some ''geography''"
    by (simp_all add: c'_def f)
  have w: "5 < max_card_width c" and w': "5 < max_card_width c'" by (simp_all add: f f')
  have d: "snd (snd (draw c)) = c'" using draw_ok [OF w] by (auto simp: c'_def f)
  have d': "snd (snd (draw c')) = c" using draw_ok [OF w'] by (auto simp: c'_def f)
  have t: "get_topic c = (Inr (map (framed 70) ['''', ''Capital of France'', '''']), c)"
    using get_topic_ok [OF w] by (simp add: f wrapped_capital)
  have t': "get_topic c' = (Inr (map (framed 70) ['''', ''Capital of France'', '''']), c')"
    using get_topic_ok [OF w'] by (simp add: f' wrapped_capital)
  have k: "get_keywords c = (Inr (map (framed 70) ['''', ''geography'', '''']), c)"
    using get_keywords_ok [OF w f(6)] by (simp add: f wrapped_geography)
  have k': "get_keywords c' = (Inr (map (framed 70) ['''', ''geography'', '''']), c')"
    using get_keywords_ok [OF w' f'(6)] by (simp add: f' wrapped_geography)
  obtain cb where cb: "get_content c = (Inr cb, c)" "length cb = 6"
    using get_content_ok [OF w] by (simp add: f wrapped_long_answer wrapped_initial Let_def numeral_eq_Suc)
  obtain cb' where cb': "get_content c' = (Inr cb', c')" "length cb' = 7"
    using get_content_ok [OF w'] by (simp add: f' wrapped_long_answer Let_def)
  have "length (fst (draw c)) = 19"
    by (simp add: draw_def get_lines_to_draw_def Let_def bind_m_def return_m_def t k cb f truthy_def)
  moreover have "length (fst (draw c')) = 20"
    by (simp add: draw_def get_lines_to_draw_def Let_def bind_m_def return_m_def t' k' cb' f' truthy_def)
  ultimately show ?thesis unfolding c_def [symmetric] d d' by simp
qed

section \<open>The length of wrapped lines\<close>

lemma last_index_bound: "last_index ch s i < i + int (length s) \<or> last_index ch s i = -1"
  by (induction s arbitrary: i) (auto simp: Let_def, smt (verit))

lemma rfind_bound: "rfind s ch e < int (slice_pos e (length s)) \<or> rfind s ch e = -1"
  using last_index_bound [of ch "slice_to s e" 0] slice_pos_le [of e "length s"]
  by (auto simp: rfind_def slice_to_def min_def split: if_splits)

lemma length_slice_to: "0 \<le> e \<Longrightarrow> int (length (slice_to s e)) \<le> e"
  by (simp add: slice_to_def slice_pos_def)

lemma handle_long_word_fits:
  assumes "0 < w" and "n \<le> w" and "length (concat cl) = n"
  shows "length (concat (fst (handle_long_word chunks cl n w))) \<le> w"
proof -
  define sl where "sl = (if w < 1 then 1 else int w - int n)"
  define hy where "hy = rfind (hd chunks) CHR ''-'' sl"
  define en where "en = (if sl < int (length (hd chunks)) \<and> 0 < hy
        \<and> list_ex (\<lambda>c. c \<noteq> CHR ''-'') (slice_to (hd chunks) hy) then hy + 1 else sl)"
  have sl: "sl = int w - int n" "0 \<le> sl" using assms by (simp_all add: sl_def)
  have "hy < int (slice_pos sl (length (hd chunks))) \<or> hy = -1"
    unfolding hy_def by (rule rfind_bound)
  then have "hy < sl" using sl(2) by (auto simp: slice_pos_def)
  then have "0 \<le> en" "en \<le> sl" using sl(2) by (auto simp: en_def)
  then have "int (length (slice_to (hd chunks) en)) \<le> int w - int n"
    using length_slice_to [of en "hd chunks"] sl(1) by linarith
  moreover have "handle_long_word chunks cl n w = (cl @ [slice_to (hd chunks) en], slice_from (hd chunks) en # tl chunks)"
    unfolding handle_long_word_def Let_def en_def hy_def sl_def by (rule refl)
  ultimately show ?thesis using assms by simp
qed

lemma length_concat_butlast: "length (concat (butlast xs)) \<le> length (concat xs)"
  by (induction xs) simp_all

lemma wrap_line_fits:
  assumes "0 < w"
  shows "length (concat (fst (wrap_line w b chunks))) \<le> w"
proof -
  define chunks1 where "chunks1 = (if is_blank (hd chunks) \<and> b then tl chunks else chunks)"
  obtain cl n chunks2 where fl: "fill_line w [] 0 chunks1 = (cl, n, chunks2)"
    by (metis prod_cases3)
  define r where "r = (if chunks2 \<noteq> [] \<and> w < length (hd chunks2)
             then handle_long_word chunks2 cl n w else (cl, chunks2))"
  define cl3 where "cl3 = (if fst r \<noteq> [] \<and> is_blank (last (fst r)) then butlast (fst r) else fst r)"
  have res: "fst (wrap_line w b chunks) = cl3"
    by (simp add: wrap_line_def Let_def chunks1_def [symmetric] fl r_def cl3_def split: prod.splits)
  from fill_line_taken [OF fl] have n: "length (concat cl) = n" by auto
  from fill_line_fits [OF fl] have nw: "n \<le> w" by simp
  have "length (concat (fst r)) \<le> w"
    using handle_long_word_fits [OF assms nw n, of chunks2] n nw by (simp add: r_def)
  moreover have "length (concat cl3) \<le> length (concat (fst r))"
    by (simp add: cl3_def length_concat_butlast)
  ultimately show ?thesis unfolding res by simp
qed

lemma wrap_chunks_loop_fits:
  assumes "0 < w" and "\<forall>l\<in>set lines. length l \<le> w"
  shows "\<forall>l\<in>set (wrap_chunks_loop w lines chunks). length l \<le> w"
  using assms
proof (induction w lines chunks rule: wrap_chunks_loop.induct)
  case (1 width lines chunks)
  show ?case
  proof (cases "chunks = []")
    case True
    then show ?thesis using "1.prems"(2) by (simp add: wrap_chunks_loop.simps)
  next
    case False
    obtain cur_line chunks' where wl: "wrap_line width (lines \<noteq> []) chunks = (cur_line, chunks')"
      by (cases "wrap_line width (lines \<noteq> []) chunks")
    define lines' where "lines' = (if cur_line \<noteq> [] then lines @ [concat cur_line] else lines)"
    have "length (concat cur_line) \<le> width"
      using wrap_line_fits [OF \<open>0 < width\<close>, of "lines \<noteq> []" chunks] wl by simp
    then have "\<forall>l\<in>set lines'. length l \<le> width"
      using "1.prems"(2) by (simp add: lines'_def)
    from "1.IH" [OF False refl wl [symmetric] \<open>0 < width\<close> this [unfolded lines'_def]]
    show ?thesis using False wl by (simp add: wrap_chunks_loop.simps [of width lines chunks])
  qed
qed


text \<open>
  Claim C5, as the code has it: for every text and every width above 5,
  \<open>format_data\<close> returns, every line it returns is at most \<open>width - 5\<close> long, and
  it returns no line when the text is empty after whitespace collapsing. For a width of 5
  or less \<open>textwrap.wrap\<close> is called with a width below 1 and raises \<open>ValueError\<close>.
\<close>

theorem format_data_line_lengths:
  assumes "5 < width"
  shows "\<exists>ls. format_data text width = Inr ls
           \<and> (\<forall>l\<in>set ls. int (length l) \<le> width - 5)
           \<and> (py_join '' '' (py_split text) = [] \<longrightarrow> ls = [])"
proof -
  define line where "line = py_join '' '' (py_split text)"
  define words_in_line where
    "words_in_line = replace_char (CHR 0x09) CHR '' '' (replace_char (CHR 0x0A) CHR '' '' line)"
  define ls where "ls = wrap_chunks_loop (nat (width - 5)) [] (split_chunks words_in_line)"
  have res: "format_data text width = Inr ls"
    using assms
    by (simp add: format_data_def textwrap_wrap_def wrap_chunks_def Let_def ls_def
        words_in_line_def line_def)
  have "0 < nat (width - 5)" using assms by simp
  then have "\<forall>l\<in>set ls. length l \<le> nat (width - 5)"
    unfolding ls_def by (rule wrap_chunks_loop_fits) simp
  then have bound: "\<forall>l\<in>set ls. int (length l) \<le> width - 5"
    using assms by (auto simp: le_nat_iff)
  have "ls = []" if "line = []"
  proof -
    have "split_chunks words_in_line = []"
      by (simp add: that words_in_line_def replace_char_def split_chunks_def munge_whitespace_def
          expandtabs_def)
    then show ?thesis by (simp add: ls_def wrap_chunks_loop.simps)
  qed
  with res bound show ?thesis unfolding line_def by blast
qed

theorem format_data_line_lengths_witness:
  "(5::int) < 8 \<and> (\<exists>ls. format_data ''ab cd'' 8 = Inr ls
           \<and> (\<forall>l\<in>set ls. int (length l) \<le> 8 - 5)
           \<and> (py_join '' '' (py_split ''ab cd'') = [] \<longrightarrow> ls = []))"
  using format_data_line_lengths [of 8 "''ab cd''"] by simp

theorem format_data_counterexample:
  "py_join '' '' (py_split '''') = [] \<and> format_data '''' 5 = Inl ValueError"
  by (simp add: format_data_err py_split_def)

section \<open>The session\<close>

lemma render_rendered:
  assumes "5 < max_card_width c"
  shows "get_lines_to_draw BORDER c = (Inr (rendered c), c)"
proof -
  from render_ok [OF assms, of BORDER] obtain ls where "get_lines_to_draw BORDER c = (Inr ls, c)"
    by blast
  then show ?thesis by (simp add: rendered_def)
qed

lemma rendered_content_block:
  assumes "5 < max_card_width c"
  shows "\<exists>pre post n. rendered c = pre @ map (framed (max_card_width c))
           ([''''] @ (if hide_content c then wrapped initial_content (max_card_width c)
                     else wrapped (content c) (max_card_width c)) @ [''''] @ replicate n '''') @ post"
proof -
  from render_ok [OF assms, of BORDER] obtain t cb kb where
    cb: "get_content c = (Inr cb, c)" and
    r: "get_lines_to_draw BORDER c =
               (Inr ([[CHR 0x0A]] @ [border_line BORDER c] @ t @ [border_line BORDER c, border_line BORDER c] @ cb
                     @ (if truthy (keywords c) then [border_line BORDER c, border_line BORDER c] @ kb else [])
                     @ [border_line BORDER c]), c)"
    by blast
  from cb get_content_ok [OF assms] obtain n where
    "cb = map (framed (max_card_width c))
           ([''''] @ (if hide_content c then wrapped initial_content (max_card_width c)
                     else wrapped (content c) (max_card_width c)) @ [''''] @ replicate n '''')"
    by (auto simp: Let_def)
  moreover have "rendered c = ([[CHR 0x0A]] @ [border_line BORDER c] @ t @ [border_line BORDER c, border_line BORDER c])
      @ cb @ ((if truthy (keywords c) then [border_line BORDER c, border_line BORDER c] @ kb else [])
                     @ [border_line BORDER c])"
    by (simp add: rendered_def r)
  ultimately show ?thesis by blast
qed

lemma run_ok:
  assumes "5 < max_card_width c"
  shows "run os_name c =
     (clean os_name @ map Print (rendered c), Inr (), c\<lparr>hide_content := \<not> hide_content c\<rparr>)"
  by (simp add: run_def draw_def render_rendered [OF assms])

lemma run_times_hidden:
  assumes "5 < max_card_width c" and "hide_content c"
  shows "run_times 2 os_name c (l1 # l2 # rest) = (two_phases os_name c, Inr (), c, rest)"
proof -
  have h: "c\<lparr>hide_content := True\<rparr> = c" using assms(2) by simp
  have w': "5 < max_card_width (c\<lparr>hide_content := False\<rparr>)" using assms(1) by simp
  have 1: "run os_name c = (clean os_name @ map Print (rendered c), Inr (), c\<lparr>hide_content := False\<rparr>)"
    using run_ok [OF assms(1), of os_name] assms(2) by simp
  have 2: "run os_name (c\<lparr>hide_content := False\<rparr>) =
      (clean os_name @ map Print (rendered (c\<lparr>hide_content := False\<rparr>)), Inr (), c)"
    using run_ok [OF w', of os_name] h by simp
  show ?thesis
    by (simp add: numeral_2_eq_2 1 2 two_phases_def h input_def clean_def)
qed

lemma run_each_hidden:
  assumes "\<forall>c\<in>set cards. hide_content c \<and> 5 < max_card_width c"
    and "2 * length cards \<le> length stdin"
  shows "run_each os_name cards stdin =
     (concat (map (two_phases os_name) cards), Inr (), cards, drop (2 * length cards) stdin)"
  using assms
proof (induction cards arbitrary: stdin)
  case Nil
  then show ?case by simp
next
  case (Cons c cards)
  from Cons.prems(2) obtain l1 l2 rest where stdin: "stdin = l1 # l2 # rest"
    by (cases stdin; cases "tl stdin") auto
  have 1: "run_times 2 os_name c stdin = (two_phases os_name c, Inr (), c, rest)"
    unfolding stdin using Cons.prems(1) by (intro run_times_hidden) simp_all
  have "2 * length cards \<le> length rest" using Cons.prems(2) stdin by simp
  with Cons.IH [of rest] Cons.prems(1) have
    "run_each os_name cards rest =
     (concat (map (two_phases os_name) cards), Inr (), cards, drop (2 * length cards) rest)"
    by simp
  with 1 show ?case by (simp add: stdin)
qed

lemma mset_shuffle_from: "i < length x \<Longrightarrow> mset (shuffle_from rnd i x) = mset x"
proof (induction i arbitrary: x)
  case 0
  then show ?case by simp
next
  case (Suc i)
  define j where "j = rnd (Suc i) mod (Suc i + 1)"
  have "j < Suc i + 1" unfolding j_def by (rule mod_less_divisor) simp
  then have j: "j < length x" using Suc.prems by simp
  have "mset (x[Suc i := x ! j, j := x ! Suc i]) = mset x"
    using Suc.prems j by (simp add: mset_swap)
  moreover have "i < length (x[Suc i := x ! j, j := x ! Suc i])" using Suc.prems by simp
  ultimately show ?case using Suc.IH [of "x[Suc i := x ! j, j := x ! Suc i]"]
    by (simp add: j_def Let_def)
qed

lemma mset_shuffle: "mset (shuffle rnd x) = mset x"
  by (cases x) (simp_all add: shuffle_def mset_shuffle_from)


text \<open>
  Claim C8, as the code has it: a new card hides its content; and for cards that hide
  their content and are wider than 5 columns, with two lines of input to read for every
  card, \<open>run_flashcards\<close> handles the cards one after the other, in the order given or
  in a permutation of it, each in two phases: the screen is cleared, the card is drawn
  with the placeholder in its content block, a line is read, the screen is cleared, the
  card is drawn with its content in the block, a line is read. The cards are left hiding
  their content again. A card of width 5 or less stops the session with \<open>ValueError\<close>
  at its first draw, and input that runs out stops it with \<open>EOFError\<close>.
\<close>

theorem run_flashcards_two_phases:
  assumes "\<forall>c\<in>set cards. hide_content c \<and> 5 < max_card_width c"
    and "2 * length cards \<le> length stdin"
  shows "hide_content (Flashcard tp ct kw mw mh)
         \<and> mset (shuffle rnd cards) = mset cards
         \<and> run_flashcards rnd os_name cards ordered stdin =
           (concat (map (two_phases os_name) (if ordered then cards else shuffle rnd cards)),
            Inr (), if ordered then cards else shuffle rnd cards,
            drop (2 * length cards) stdin)
         \<and> (\<forall>c\<in>set cards.
               fst (get_lines_to_draw BORDER (c\<lparr>hide_content := True\<rparr>))
                 = Inr (rendered (c\<lparr>hide_content := True\<rparr>))
             \<and> fst (get_lines_to_draw BORDER (c\<lparr>hide_content := False\<rparr>))
                 = Inr (rendered (c\<lparr>hide_content := False\<rparr>))
             \<and> (\<exists>pre post n. rendered (c\<lparr>hide_content := True\<rparr>) =
                   pre @ map (framed (max_card_width c))
                     ([''''] @ wrapped initial_content (max_card_width c) @ [''''] @ replicate n '''')
                   @ post)
             \<and> (\<exists>pre post n. rendered (c\<lparr>hide_content := False\<rparr>) =
                   pre @ map (framed (max_card_width c))
                     ([''''] @ wrapped (content c) (max_card_width c) @ [''''] @ replicate n '''')
                   @ post))"
proof -
  define order where "order = (if ordered then cards else shuffle rnd cards)"
  have perm: "mset (shuffle rnd cards) = mset cards" by (rule mset_shuffle)
  then have "mset order = mset cards" by (simp add: order_def)
  then have "set order = set cards" "length order = length cards"
    by (metis set_mset_mset, metis size_mset)
  with assms have "\<forall>c\<in>set order. hide_content c \<and> 5 < max_card_width c"
    and "2 * length order \<le> length stdin" by simp_all
  then have "run_each os_name order stdin =
      (concat (map (two_phases os_name) order), Inr (), order, drop (2 * length order) stdin)"
    by (rule run_each_hidden)
  then have trace: "run_flashcards rnd os_name cards ordered stdin =
      (concat (map (two_phases os_name) order), Inr (), order, drop (2 * length cards) stdin)"
    using \<open>length order = length cards\<close>
    by (cases ordered) (simp_all add: run_flashcards_def order_def)
  have blocks: "fst (get_lines_to_draw BORDER (c\<lparr>hide_content := True\<rparr>))
                 = Inr (rendered (c\<lparr>hide_content := True\<rparr>))
             \<and> fst (get_lines_to_draw BORDER (c\<lparr>hide_content := False\<rparr>))
                 = Inr (rendered (c\<lparr>hide_content := False\<rparr>))
             \<and> (\<exists>pre post n. rendered (c\<lparr>hide_content := True\<rparr>) =
                   pre @ map (framed (max_card_width c))
                     ([''''] @ wrapped initial_content (max_card_width c) @ [''''] @ replicate n '''')
                   @ post)
             \<and> (\<exists>pre post n. rendered (c\<lparr>hide_content := False\<rparr>) =
                   pre @ map (framed (max_card_width c))
                     ([''''] @ wrapped (content c) (max_card_width c) @ [''''] @ replicate n '''')
                   @ post)"
    if "c \<in> set cards" for c
  proof -
    have w: "5 < max_card_width (c\<lparr>hide_content := True\<rparr>)"
      and w': "5 < max_card_width (c\<lparr>hide_content := False\<rparr>)"
      using assms that by simp_all
    show ?thesis
      using render_rendered [OF w] render_rendered [OF w']
        rendered_content_block [OF w] rendered_content_block [OF w']
      by simp
  qed
  have "hide_content (Flashcard tp ct kw mw mh)" by (simp add: Flashcard_def)
  with perm trace blocks show ?thesis unfolding order_def by blast
qed

theorem run_flashcards_two_phases_witness:
  "hide_content (Flashcard ''t'' ''c'' None 70 6) \<and> 5 < max_card_width (Flashcard ''t'' ''c'' None 70 6)
   \<and> hide_content (Flashcard ''u'' ''d'' (Some ''k'') 70 6)
   \<and> 5 < max_card_width (Flashcard ''u'' ''d'' (Some ''k'') 70 6)
   \<and> 2 * length [Flashcard ''t'' ''c'' None 70 6, Flashcard ''u'' ''d'' (Some ''k'') 70 6]
        \<le> length ['''', ''x'', '''', '''', ''left'']
   \<and> run_flashcards draws_zero ''posix''
        [Flashcard ''t'' ''c'' None 70 6, Flashcard ''u'' ''d'' (Some ''k'') 70 6] False
        ['''', ''x'', '''', '''', ''left''] =
       (two_phases ''posix'' (Flashcard ''u'' ''d'' (Some ''k'') 70 6)
          @ two_phases ''posix'' (Flashcard ''t'' ''c'' None 70 6),
        Inr (),
        [Flashcard ''u'' ''d'' (Some ''k'') 70 6, Flashcard ''t'' ''c'' None 70 6],
        [''left''])"
proof -
  have h: "\<forall>c\<in>set [Flashcard ''t'' ''c'' None 70 6, Flashcard ''u'' ''d'' (Some ''k'') 70 6].
      hide_content c \<and> 5 < max_card_width c"
    by (simp add: Flashcard_def)
  have l: "2 * length [Flashcard ''t'' ''c'' None 70 6, Flashcard ''u'' ''d'' (Some ''k'') 70 6]
        \<le> length ['''', ''x'', '''', '''', ''left'']"
    by simp
  have s: "shuffle draws_zero [Flashcard ''t'' ''c'' None 70 6, Flashcard ''u'' ''d'' (Some ''k'') 70 6]
      = [Flashcard ''u'' ''d'' (Some ''k'') 70 6, Flashcard ''t'' ''c'' None 70 6]"
    by (simp add: shuffle_def draws_zero_def)
  from run_flashcards_two_phases [OF h l, where rnd = draws_zero and os_name = "''posix''"
      and ordered = False] h s
  show ?thesis by simp
qed

theorem run_flashcards_counterexample:
  "run_flashcards draws_zero ''posix'' [Flashcard ''t'' ''c'' None 5 6] True [''a'', ''b''] =
     ([System ''clear''], Inl ValueError, [Flashcard ''t'' ''c'' None 5 6], [''a'', ''b''])
   \<and> run_flashcards draws_zero ''posix'' [Flashcard ''t'' ''c'' None 70 6] True [] =
     (System ''clear'' # map Print (rendered (Flashcard ''t'' ''c'' None 70 6)), Inl EOFError,
      [(Flashcard ''t'' ''c'' None 70 6)\<lparr>hide_content := False\<rparr>], [])"
proof -
  have 1: "run ''posix'' (Flashcard ''t'' ''c'' None 5 6)
      = ([System ''clear''], Inl ValueError, Flashcard ''t'' ''c'' None 5 6)"
    by (simp add: run_def clean_def draw_err Flashcard_def)
  have "5 < max_card_width (Flashcard ''t'' ''c'' None 70 6)" by (simp add: Flashcard_def)
  from run_ok [OF this, of "''posix''"]
  have 2: "run ''posix'' (Flashcard ''t'' ''c'' None 70 6)
      = (System ''clear'' # map Print (rendered (Flashcard ''t'' ''c'' None 70 6)), Inr (),
         (Flashcard ''t'' ''c'' None 70 6)\<lparr>hide_content := False\<rparr>)"
    by (simp add: clean_def Flashcard_def)
  show ?thesis
    by (simp add: run_flashcards_def numeral_2_eq_2 1 2 input_def)
qed

section \<open>Where lines break\<close>

lemma tw_whitespace_isspace: "tw_whitespace c \<Longrightarrow> py_isspace c"
  by (auto simp: tw_whitespace_def py_isspace_def)

lemma tw_whitespace_space: "tw_whitespace CHR '' ''"
  by (simp add: tw_whitespace_def)

lemma tw_whitespace_not_hyphen: "tw_whitespace c \<Longrightarrow> c \<noteq> CHR ''-''"
  by (auto simp: tw_whitespace_def)

lemma split_from_words:
  "\<forall>c\<in>set cur. \<not> py_isspace c \<Longrightarrow>
   \<forall>w\<in>set (split_from cur s). w \<noteq> [] \<and> (\<forall>c\<in>set w. \<not> py_isspace c)"
proof (induction s arbitrary: cur)
  case Nil
  then show ?case by auto
next
  case (Cons a s)
  show ?case
  proof (cases "py_isspace a")
    case True
    have "\<forall>w\<in>set (split_from [] s). w \<noteq> [] \<and> (\<forall>c\<in>set w. \<not> py_isspace c)"
      by (rule Cons.IH) simp
    then show ?thesis using True Cons.prems by auto
  next
    case False
    then have "\<forall>c\<in>set (cur @ [a]). \<not> py_isspace c" using Cons.prems by auto
    from Cons.IH [OF this] show ?thesis using False by simp
  qed
qed

lemma py_split_words: "\<forall>w\<in>set (py_split s). w \<noteq> [] \<and> (\<forall>c\<in>set w. \<not> py_isspace c)"
  unfolding py_split_def by (rule split_from_words) simp

lemma py_join_Cons: "py_join sep (w # ws) = w @ concat (map (\<lambda>v. sep @ v) ws)"
  by (induction ws arbitrary: w) simp_all

lemma sepd_simps: "sepd [] = []" "sepd (v # vs) = '' '' # v # sepd vs"
  by (simp_all add: sepd_def)

lemma spaced_simps: "spaced [] = []" "spaced (v # vs) = v # sepd vs"
  by (simp_all add: spaced_def)

lemma concat_sepd: "concat (sepd ws) = concat (map (\<lambda>v. '' '' @ v) ws)"
  by (induction ws) (simp_all add: sepd_simps)

lemma concat_spaced: "concat (spaced ws) = py_join '' '' ws"
  by (cases ws) (simp_all add: spaced_simps py_join_Cons concat_sepd)


lemma replace_char_absent: "old \<notin> set s \<Longrightarrow> replace_char old new s = s"
  by (induction s) (auto simp: replace_char_def)

lemma expandtabs_from_absent: "CHR 0x09 \<notin> set s \<Longrightarrow> expandtabs_from ts j s = s"
  by (induction s arbitrary: j) auto

lemma joined_chars:
  assumes "\<forall>w\<in>set ws. \<forall>c\<in>set w. \<not> py_isspace c" and "c \<in> set (py_join '' '' ws)"
  shows "c = CHR '' '' \<or> \<not> py_isspace c"
proof (cases ws)
  case Nil
  then show ?thesis using assms(2) by simp
next
  case (Cons w ws')
  then show ?thesis using assms by (auto simp: py_join_Cons split: if_splits)
qed

lemma munge_joined:
  assumes "\<forall>w\<in>set ws. \<forall>c\<in>set w. \<not> py_isspace c"
  shows "munge_whitespace (replace_char (CHR 0x09) CHR '' '' (replace_char (CHR 0x0A) CHR '' ''
           (py_join '' '' ws))) = py_join '' '' ws"
proof -
  let ?s = "py_join '' '' ws"
  have sp: "c = CHR '' '' \<or> \<not> py_isspace c" if "c \<in> set ?s" for c
    using joined_chars [OF assms that] .
  have "py_isspace (CHR 0x0A)" "py_isspace (CHR 0x09)" by (simp_all add: py_isspace_def)
  then have "CHR 0x0A \<notin> set ?s" "CHR 0x09 \<notin> set ?s" using sp by fastforce+
  then have 1: "replace_char (CHR 0x09) CHR '' '' (replace_char (CHR 0x0A) CHR '' '' ?s) = ?s"
    and 2: "expandtabs ?s 8 = ?s"
    by (simp_all add: replace_char_absent expandtabs_def expandtabs_from_absent)
  have "map (\<lambda>c. if tw_whitespace c then CHR '' '' else c) ?s = ?s"
    using sp tw_whitespace_isspace by (intro map_idI) auto
  then show ?thesis by (simp add: munge_whitespace_def 1 2)
qed

lemma word_more_plain:
  assumes "\<forall>c\<in>set u. \<not> tw_whitespace c \<and> c \<noteq> CHR ''-''"
    and "rest = [] \<or> tw_whitespace (hd rest)"
  shows "word_more prev (u @ rest) = length u"
  using assms(1)
proof (induction u arbitrary: prev)
  case Nil
  show ?case
  proof (cases rest)
    case Nil
    then show ?thesis by simp
  next
    case (Cons r rs)
    then have "tw_whitespace r" using assms(2) by simp
    then show ?thesis using Cons tw_whitespace_not_hyphen by simp
  qed
next
  case (Cons c u)
  then have "c \<noteq> CHR ''-''" "\<not> tw_whitespace c" by simp_all
  moreover from this have "\<not> emdash_ahead (c # u @ rest)"
    by (simp add: emdash_ahead_def hyphen_run_def)
  ultimately show ?case using Cons by simp
qed

lemma wordsep_split_word:
  assumes "w \<noteq> []" and "\<forall>c\<in>set w. \<not> tw_whitespace c \<and> c \<noteq> CHR ''-''"
    and "rest = [] \<or> tw_whitespace (hd rest)"
  shows "wordsep_split prev (w @ rest) = w # wordsep_split (rev w @ prev) rest"
proof -
  obtain c u where w: "w = c # u" using assms(1) by (cases w) auto
  have c: "c \<noteq> CHR ''-''" "\<not> tw_whitespace c" using assms(2) w by simp_all
  then have "\<not> emdash_ahead (c # u @ rest)" by (simp add: emdash_ahead_def hyphen_run_def)
  then have "match_more prev c (u @ rest) = word_more (c # prev) (u @ rest)"
    using c by (simp add: match_more_def)
  also have "\<dots> = length u" using assms(2,3) w by (intro word_more_plain) simp_all
  finally show ?thesis by (simp add: w)
qed

lemma wordsep_split_space:
  assumes "rest \<noteq> []" and "\<not> tw_whitespace (hd rest)"
  shows "wordsep_split prev (CHR '' '' # rest) = '' '' # wordsep_split (CHR '' '' # prev) rest"
proof -
  have "takeWhile tw_whitespace rest = []" using assms by (cases rest) simp_all
  then show ?thesis by (simp add: match_more_def tw_whitespace_space)
qed

lemma wordsep_split_sepd:
  assumes "\<forall>w\<in>set ws. w \<noteq> [] \<and> (\<forall>c\<in>set w. \<not> tw_whitespace c \<and> c \<noteq> CHR ''-'')"
  shows "wordsep_split prev (concat (map (\<lambda>v. '' '' @ v) ws)) = sepd ws"
  using assms
proof (induction ws arbitrary: prev)
  case Nil
  then show ?case by (simp add: sepd_simps)
next
  case (Cons v vs)
  let ?rest = "concat (map (\<lambda>v. '' '' @ v) vs)"
  have rest: "?rest = [] \<or> tw_whitespace (hd ?rest)"
    by (cases vs) (simp_all add: tw_whitespace_space)
  have v: "v \<noteq> []" "\<forall>c\<in>set v. \<not> tw_whitespace c \<and> c \<noteq> CHR ''-''" using Cons.prems by simp_all
  then have hd: "v @ ?rest \<noteq> []" "\<not> tw_whitespace (hd (v @ ?rest))" by (cases v; simp)+
  have "wordsep_split prev (CHR '' '' # v @ ?rest)
      = '' '' # wordsep_split (CHR '' '' # prev) (v @ ?rest)"
    using hd by (rule wordsep_split_space)
  also have "wordsep_split (CHR '' '' # prev) (v @ ?rest)
      = v # wordsep_split (rev v @ CHR '' '' # prev) ?rest"
    using v rest by (rule wordsep_split_word)
  also have "wordsep_split (rev v @ CHR '' '' # prev) ?rest = sepd vs"
    using Cons.prems by (intro Cons.IH) simp
  finally show ?case by (simp add: sepd_simps)
qed

lemma wordsep_split_joined:
  assumes "\<forall>w\<in>set ws. w \<noteq> [] \<and> (\<forall>c\<in>set w. \<not> tw_whitespace c \<and> c \<noteq> CHR ''-'')"
  shows "wordsep_split prev (py_join '' '' ws) = spaced ws"
proof (cases ws)
  case Nil
  then show ?thesis by (simp add: spaced_simps)
next
  case (Cons v vs)
  let ?rest = "concat (map (\<lambda>v. '' '' @ v) vs)"
  have rest: "?rest = [] \<or> tw_whitespace (hd ?rest)"
    by (cases vs) (simp_all add: tw_whitespace_space)
  have v: "v \<noteq> []" "\<forall>c\<in>set v. \<not> tw_whitespace c \<and> c \<noteq> CHR ''-''" using assms Cons by simp_all
  have "wordsep_split prev (v @ ?rest) = v # wordsep_split (rev v @ prev) ?rest"
    using v rest by (rule wordsep_split_word)
  also have "wordsep_split (rev v @ prev) ?rest = sepd vs"
    using assms Cons by (intro wordsep_split_sepd) simp
  finally show ?thesis by (simp add: Cons py_join_Cons spaced_simps)
qed


lemma plain_word_not_blank: "plain_word w v \<Longrightarrow> \<not> is_blank v"
  by (cases v) (simp_all add: plain_word_def is_blank_def)

lemma is_blank_space: "is_blank '' ''"
  by (simp add: is_blank_def py_isspace_def)

lemma fill_line_sepd:
  "\<exists>g ws'. ws = g @ ws' \<and>
     (fill_line w cl n (sepd ws) = (cl @ sepd g, n + length (concat (sepd g)), sepd ws')
      \<or> (ws' \<noteq> [] \<and>
          fill_line w cl n (sepd ws) = (cl @ sepd g @ ['' ''], n + length (concat (sepd g)) + 1, spaced ws')))"
proof (induction ws arbitrary: cl n)
  case Nil
  have "[] = [] @ ([]::string list) \<and>
      fill_line w cl n (sepd []) = (cl @ sepd [], n + length (concat (sepd [])), sepd [])"
    by (simp add: sepd_simps)
  then show ?case by blast
next
  case (Cons v vs)
  consider (none) "\<not> n + 1 \<le> w" | (space) "n + 1 \<le> w" "\<not> n + 1 + length v \<le> w"
    | (both) "n + 1 \<le> w" "n + 1 + length v \<le> w" by blast
  then show ?case
  proof cases
    case none
    then have "v # vs = [] @ (v # vs) \<and>
      fill_line w cl n (sepd (v # vs)) = (cl @ sepd [], n + length (concat (sepd [])), sepd (v # vs))"
      by (simp add: sepd_simps)
    then show ?thesis by blast
  next
    case space
    then have "v # vs = [] @ (v # vs) \<and> v # vs \<noteq> [] \<and>
      fill_line w cl n (sepd (v # vs))
        = (cl @ sepd [] @ ['' ''], n + length (concat (sepd [])) + 1, spaced (v # vs))"
      by (simp add: sepd_simps spaced_simps)
    then show ?thesis by blast
  next
    case both
    then have step: "fill_line w cl n (sepd (v # vs))
        = fill_line w (cl @ ['' '', v]) (n + 1 + length v) (sepd vs)"
      by (simp add: sepd_simps)
    from Cons.IH [of "cl @ ['' '', v]" "n + 1 + length v"] obtain g ws' where
      vs: "vs = g @ ws'" and
      d: "fill_line w (cl @ ['' '', v]) (n + 1 + length v) (sepd vs)
            = ((cl @ ['' '', v]) @ sepd g, n + 1 + length v + length (concat (sepd g)), sepd ws')
          \<or> (ws' \<noteq> [] \<and> fill_line w (cl @ ['' '', v]) (n + 1 + length v) (sepd vs)
            = ((cl @ ['' '', v]) @ sepd g @ ['' ''], n + 1 + length v + length (concat (sepd g)) + 1,
                spaced ws'))"
      by blast
    have "v # vs = (v # g) @ ws'" using vs by simp
    moreover have "fill_line w cl n (sepd (v # vs))
            = (cl @ sepd (v # g), n + length (concat (sepd (v # g))), sepd ws')
          \<or> (ws' \<noteq> [] \<and> fill_line w cl n (sepd (v # vs))
            = (cl @ sepd (v # g) @ ['' ''], n + length (concat (sepd (v # g))) + 1, spaced ws'))"
      using d unfolding step by (simp add: sepd_simps add_ac)
    ultimately show ?thesis by blast
  qed
qed

lemma sepd_Nil_iff: "sepd vs = [] \<longleftrightarrow> vs = []"
  by (cases vs) (simp_all add: sepd_simps)

lemma last_sepd: "vs \<noteq> [] \<Longrightarrow> last (sepd vs) = last vs"
  by (induction vs) (simp_all add: sepd_simps sepd_Nil_iff)

lemma last_spaced: "ws \<noteq> [] \<Longrightarrow> last (spaced ws) = last ws"
  by (cases ws) (simp_all add: spaced_simps sepd_Nil_iff last_sepd)

lemma wrap_line_no_drop:
  "wrap_line w b chunks = wrap_line w False (if is_blank (hd chunks) \<and> b then tl chunks else chunks)"
  by (simp add: wrap_line_def)

lemma wrap_line_spaced:
  assumes "\<forall>u\<in>set (v # vs). plain_word w u"
  shows "\<exists>g ws'. vs = g @ ws' \<and>
           (wrap_line w False (spaced (v # vs)) = (spaced (v # g), sepd ws')
            \<or> (ws' \<noteq> [] \<and> wrap_line w False (spaced (v # vs)) = (spaced (v # g), spaced ws')))"
proof -
  have v: "length v \<le> w" "v \<noteq> []" using assms by (simp_all add: plain_word_def)
  then have w: "0 < w" by (cases v) auto
  have start: "fill_line w [] 0 (spaced (v # vs)) = fill_line w [v] (length v) (sepd vs)"
    using v by (simp add: spaced_simps)
  from fill_line_sepd [of vs w "[v]" "length v"] obtain g ws' where
    vs: "vs = g @ ws'" and
    d: "fill_line w [v] (length v) (sepd vs)
            = ([v] @ sepd g, length v + length (concat (sepd g)), sepd ws')
        \<or> (ws' \<noteq> [] \<and> fill_line w [v] (length v) (sepd vs)
            = ([v] @ sepd g @ ['' ''], length v + length (concat (sepd g)) + 1, spaced ws'))"
    by blast
  have "last (v # g) \<in> set (v # g)" by (rule last_in_set) simp
  then have "plain_word w (last (v # g))" using assms vs by auto
  then have "\<not> is_blank (last (v # g))" by (rule plain_word_not_blank)
  then have nb: "\<not> is_blank (last (spaced (v # g)))" by (simp only: last_spaced list.distinct not_False_eq_True)
  from d show ?thesis
  proof
    assume a: "fill_line w [v] (length v) (sepd vs)
            = ([v] @ sepd g, length v + length (concat (sepd g)), sepd ws')"
    have short: "(sepd ws' \<noteq> [] \<and> w < length (hd (sepd ws'))) = False"
      using w by (cases ws') (simp_all add: sepd_simps)
    have fl: "fill_line w [] 0 (spaced (v # vs))
        = (spaced (v # g), length v + length (concat (sepd g)), sepd ws')"
      unfolding start a by (simp add: spaced_simps)
    have "wrap_line w False (spaced (v # vs)) = (spaced (v # g), sepd ws')"
      using nb by (simp add: wrap_line_def fl short)
    with vs show ?thesis by blast
  next
    assume "ws' \<noteq> [] \<and> fill_line w [v] (length v) (sepd vs)
            = ([v] @ sepd g @ ['' ''], length v + length (concat (sepd g)) + 1, spaced ws')"
    then have ne: "ws' \<noteq> []" and a: "fill_line w [v] (length v) (sepd vs)
            = ([v] @ sepd g @ ['' ''], length v + length (concat (sepd g)) + 1, spaced ws')"
      by simp_all
    have "length (hd ws') \<le> w" using assms vs ne by (cases ws') (simp_all add: plain_word_def)
    then have short: "(spaced ws' \<noteq> [] \<and> w < length (hd (spaced ws'))) = False"
      using ne by (cases ws') (simp_all add: spaced_simps)
    have fl: "fill_line w [] 0 (spaced (v # vs))
        = (spaced (v # g) @ ['' ''], length v + length (concat (sepd g)) + 1, spaced ws')"
      unfolding start a by (simp add: spaced_simps)
    have "wrap_line w False (spaced (v # vs)) = (spaced (v # g), spaced ws')"
      by (simp add: wrap_line_def fl short is_blank_space)
    with vs ne show ?thesis by blast
  qed
qed


lemma wrap_chunks_loop_spaced:
  assumes "\<forall>u\<in>set ws. plain_word w u"
    and "chunks = spaced ws \<or> (lines \<noteq> [] \<and> chunks = sepd ws)"
  shows "\<exists>groups. wrap_chunks_loop w lines chunks = lines @ map (py_join '' '') groups
           \<and> concat groups = ws \<and> [] \<notin> set groups"
  using assms
proof (induction ws arbitrary: lines chunks rule: length_induct)
  case (1 ws)
  show ?case
  proof (cases ws)
    case Nil
    then have "chunks = []" using "1.prems"(2) by (auto simp: spaced_simps sepd_simps)
    then have "wrap_chunks_loop w lines chunks = lines @ map (py_join '' '') []
        \<and> concat [] = ws \<and> [] \<notin> set ([]::string list list)"
      using Nil by (simp add: wrap_chunks_loop.simps)
    then show ?thesis by blast
  next
    case (Cons v vs)
    have plain: "\<forall>u\<in>set (v # vs). plain_word w u" using "1.prems"(1) Cons by simp
    then have "\<not> is_blank v" using plain_word_not_blank [of w v] by simp
    then have drop: "(if is_blank (hd chunks) \<and> lines \<noteq> [] then tl chunks else chunks) = spaced (v # vs)"
      using "1.prems"(2) Cons by (auto simp: spaced_simps sepd_simps is_blank_space)
    have ne: "chunks \<noteq> []" using "1.prems"(2) Cons by (auto simp: spaced_simps sepd_simps)
    from wrap_line_spaced [OF plain] obtain g ws' where
      vs: "vs = g @ ws'" and
      d: "wrap_line w False (spaced (v # vs)) = (spaced (v # g), sepd ws')
          \<or> (ws' \<noteq> [] \<and> wrap_line w False (spaced (v # vs)) = (spaced (v # g), spaced ws'))"
      by blast
    define lines' where "lines' = lines @ [py_join '' '' (v # g)]"
    from d obtain chunks' where
      wl: "wrap_line w (lines \<noteq> []) chunks = (spaced (v # g), chunks')" and
      c': "chunks' = spaced ws' \<or> (lines' \<noteq> [] \<and> chunks' = sepd ws')"
      unfolding wrap_line_no_drop [of w "lines \<noteq> []" chunks] drop
      by (auto simp: lines'_def)
    have nn: "spaced (v # g) \<noteq> []" by (simp add: spaced_simps)
    have step: "wrap_chunks_loop w lines chunks = wrap_chunks_loop w lines' chunks'"
      using ne nn by (simp add: wrap_chunks_loop.simps [of w lines chunks] wl lines'_def
          concat_spaced)
    have "length ws' < length ws" using vs Cons by simp
    moreover have "\<forall>u\<in>set ws'. plain_word w u" using plain vs by simp
    ultimately obtain groups where
      "wrap_chunks_loop w lines' chunks' = lines' @ map (py_join '' '') groups"
      "concat groups = ws'" "[] \<notin> set groups"
      using "1.IH" c' by blast
    then have "wrap_chunks_loop w lines chunks = lines @ map (py_join '' '') ((v # g) # groups)
        \<and> concat ((v # g) # groups) = ws \<and> [] \<notin> set ((v # g) # groups)"
      using step vs Cons by (simp add: lines'_def)
    then show ?thesis by blast
  qed
qed

text \<open>
  Claim C3, as the code has it: for a width above 5, when every word of the
  whitespace-collapsed text is at most \<open>width - 5\<close> long and has no hyphen, no word
  is split: every line returned is a non-empty run of consecutive words joined by single
  spaces, and the runs, one after the other, are the words of the text.
  \<open>textwrap.wrap\<close> breaks a longer word to fit (\<open>break_long_words\<close>) and may
  break a line after a hyphen inside a word (\<open>break_on_hyphens\<close>).
\<close>

theorem words_not_split:
  assumes "5 < width"
    and "\<forall>w\<in>set (py_split text). int (length w) \<le> width - 5 \<and> CHR ''-'' \<notin> set w"
  shows "\<exists>groups. format_data text width = Inr (map (py_join '' '') groups)
           \<and> concat groups = py_split text \<and> [] \<notin> set groups"
proof -
  define ws where "ws = py_split text"
  have words: "\<forall>w\<in>set ws. w \<noteq> [] \<and> (\<forall>c\<in>set w. \<not> py_isspace c)"
    unfolding ws_def by (rule py_split_words)
  then have munge: "munge_whitespace (replace_char (CHR 0x09) CHR '' ''
      (replace_char (CHR 0x0A) CHR '' '' (py_join '' '' ws))) = py_join '' '' ws"
    by (intro munge_joined) simp
  have "\<forall>w\<in>set ws. w \<noteq> [] \<and> (\<forall>c\<in>set w. \<not> tw_whitespace c \<and> c \<noteq> CHR ''-'')"
    using words assms(2) tw_whitespace_isspace unfolding ws_def by blast
  then have chunks: "wordsep_split [] (py_join '' '' ws) = spaced ws"
    by (rule wordsep_split_joined)
  have res: "format_data text width = Inr (wrap_chunks_loop (nat (width - 5)) [] (spaced ws))"
    using assms(1)
    by (simp add: format_data_def textwrap_wrap_def wrap_chunks_def split_chunks_def Let_def
        ws_def [symmetric] munge chunks)
  have "\<forall>u\<in>set ws. plain_word (nat (width - 5)) u"
    using words assms unfolding ws_def plain_word_def list_all_iff by fastforce
  from wrap_chunks_loop_spaced [OF this, of "spaced ws" "[]"] obtain groups where
    "wrap_chunks_loop (nat (width - 5)) [] (spaced ws) = map (py_join '' '') groups"
    "concat groups = ws" "[] \<notin> set groups"
    by auto
  with res show ?thesis unfolding ws_def by (intro exI [of _ groups]) simp
qed

theorem words_not_split_witness:
  "(5::int) < 12 \<and> py_split ''to be or not'' = [''to'', ''be'', ''or'', ''not'']
   \<and> (\<exists>groups. format_data ''to be or not'' 12 = Inr (map (py_join '' '') groups)
           \<and> concat groups = py_split ''to be or not'' \<and> [] \<notin> set groups)"
proof -
  have s: "py_split ''to be or not'' = [''to'', ''be'', ''or'', ''not'']"
    by (simp add: py_split_def py_isspace_def)
  have "\<forall>w\<in>set (py_split ''to be or not''). int (length w) \<le> 12 - 5 \<and> CHR ''-'' \<notin> set w"
    unfolding s by simp
  from words_not_split [OF _ this] s show ?thesis by simp
qed

theorem words_split_counterexample:
  "py_split ''abcdefgh'' = [''abcdefgh'']
   \<and> format_data ''abcdefgh'' 10 = Inr [''abcde'', ''fgh'']
   \<and> py_split ''aaa well-known'' = [''aaa'', ''well-known'']
   \<and> format_data ''aaa well-known'' 17 = Inr [''aaa well-'', ''known'']"
  by code_simp

end
